theory Spec2Isabelle
  imports Main "HOL-Library.Word" "HOL-Library.Sublist"
begin

section \<open>Data model of the class template \<open>Fifo<T, capacity>\<close>\<close>

text \<open>
  The source is a Windows program: \<open>unsigned\<close> is a 32-bit machine integer, so the two
  indices and the population counter are \<open>32 word\<close>s and \<open>population--\<close> on 0 wraps
  around to \<open>2^32 - 1\<close>. The template parameter \<open>capacity\<close> is passed to every
  operation as an argument.
\<close>

type_synonym unsigned = "32 word"

text \<open>The five status codes (\<open>#define FIFO_STATUS_... ((unsigned) 0..4)\<close>).\<close>

datatype status =
    FIFO_STATUS_SUCCESS
  | FIFO_STATUS_FULL
  | FIFO_STATUS_EMPTY
  | FIFO_STATUS_LOCKED
  | FIFO_STATUS_PREEMPTED

definition status_code :: "status \<Rightarrow> unsigned" where
  "status_code st =
     (case st of
        FIFO_STATUS_SUCCESS \<Rightarrow> 0
      | FIFO_STATUS_FULL \<Rightarrow> 1
      | FIFO_STATUS_EMPTY \<Rightarrow> 2
      | FIFO_STATUS_LOCKED \<Rightarrow> 3
      | FIFO_STATUS_PREEMPTED \<Rightarrow> 4)"

text \<open>
  The members of the class. \<open>DataAvailableEvent\<close> is a manual-reset Windows event: it
  is modelled by its signalled state, which stays \<open>True\<close> from \<open>SetEvent\<close> until
  \<open>ResetEvent\<close>. \<open>mutex\<close> is the \<open>CRITICAL_SECTION\<close>: \<open>True\<close> while some thread is
  between its \<open>EnterCriticalSection\<close> and its \<open>LeaveCriticalSection\<close>. No
  operation of the class calls another one, so the thread that executes
  \<open>TryEnterCriticalSection\<close> or \<open>EnterCriticalSection\<close> is never the owner, and the
  recursion count of the critical section is not needed.
\<close>

record 'a Fifo =
  DataAvailableEvent :: bool
  mutex :: bool
  items :: "'a list"
  InsertionIndex :: unsigned
  ExtractionIndex :: unsigned
  population :: unsigned

text \<open>
  The constructor: both indices and the population are 0, the event is created
  non-signalled, the critical section is free. The array \<open>items\<close> is not initialised:
  \<open>junk\<close> is whatever the \<open>capacity\<close> slots hold.
\<close>

definition Fifo_ctor :: "'a list \<Rightarrow> 'a Fifo" where
  "Fifo_ctor junk =
     \<lparr>DataAvailableEvent = False, mutex = False, items = junk,
      InsertionIndex = 0, ExtractionIndex = 0, population = 0\<rparr>"

section \<open>The operations, one call run without interference\<close>

text \<open>
  Each operation is the function from the state at the call to the state at the
  return, when no other thread takes a step in between. A state with \<open>mutex = True\<close>
  at the call is one where another thread is inside its critical section.

  \<open>push\<close> never waits. \<open>pop_try\<close> waits in \<open>EnterCriticalSection\<close> and \<open>pop\<close> waits
  in \<open>WaitForSingleObject\<close> and in \<open>EnterCriticalSection\<close>: when the wait cannot end
  without another thread, the call does not return and the result is \<open>None\<close>.
  The last argument but one of \<open>pop_try\<close> and \<open>pop\<close> is the value of \<open>*itemPtr\<close> at
  the call; the value of \<open>*itemPtr\<close> at the return is part of the result.
\<close>

definition push :: "unsigned \<Rightarrow> 'a \<Rightarrow> 'a Fifo \<Rightarrow> status \<times> 'a Fifo" where
  "push capacity item s =
     (if capacity \<le> population s then (FIFO_STATUS_FULL, s)
      else if mutex s then (FIFO_STATUS_LOCKED, s)
      else
        let s1 = s\<lparr>mutex := True\<rparr> in
        if capacity \<le> population s1 then (FIFO_STATUS_PREEMPTED, s1\<lparr>mutex := False\<rparr>)
        else
          let s2 = s1\<lparr>items := (items s1)[unat (InsertionIndex s1) := item]\<rparr>;
              s3 = s2\<lparr>InsertionIndex := (InsertionIndex s2 + 1) mod capacity\<rparr>;
              s4 = s3\<lparr>population := population s3 + 1\<rparr>;
              s5 = s4\<lparr>mutex := False\<rparr>;
              s6 = s5\<lparr>DataAvailableEvent := True\<rparr>
          in (FIFO_STATUS_SUCCESS, s6))"

definition pop_try :: "unsigned \<Rightarrow> 'a \<Rightarrow> 'a Fifo \<Rightarrow> (status \<times> 'a \<times> 'a Fifo) option" where
  "pop_try capacity item s =
     (if population s = 0 then Some (FIFO_STATUS_EMPTY, item, s)
      else if mutex s then None
      else
        let s1 = s\<lparr>mutex := True\<rparr>;
            item' = items s1 ! unat (ExtractionIndex s1);
            s2 = s1\<lparr>ExtractionIndex := (ExtractionIndex s1 + 1) mod capacity\<rparr>;
            s3 = s2\<lparr>population := population s2 - 1\<rparr>;
            s4 = (if population s3 = 0 then s3\<lparr>DataAvailableEvent := False\<rparr> else s3);
            s5 = s4\<lparr>mutex := False\<rparr>
        in Some (FIFO_STATUS_SUCCESS, item', s5))"

definition pop :: "unsigned \<Rightarrow> 'a \<Rightarrow> 'a Fifo \<Rightarrow> ('a \<times> 'a Fifo) option" where
  "pop capacity item s =
     (if population s = 0 \<and> \<not> DataAvailableEvent s then None
      else if mutex s then None
      else
        let s1 = s\<lparr>mutex := True\<rparr>;
            item' = items s1 ! unat (ExtractionIndex s1);
            s2 = s1\<lparr>ExtractionIndex := (ExtractionIndex s1 + 1) mod capacity\<rparr>;
            s3 = s2\<lparr>population := population s2 - 1\<rparr>;
            s4 = (if population s3 = 0 then s3\<lparr>DataAvailableEvent := False\<rparr> else s3);
            s5 = s4\<lparr>mutex := False\<rparr>
        in Some (item', s5))"

definition getPopulation :: "'a Fifo \<Rightarrow> unsigned" where
  "getPopulation s = population s"


section \<open>A caller that issues a sequence of calls\<close>

text \<open>
  Like \<open>main\<close> in the source, the caller owns one variable whose address it passes to
  \<open>pop_try\<close> and \<open>pop\<close>, and issues one call after the other; every call returns
  before the next one starts. \<open>run\<close> gives the outcomes of the calls, the final value
  of the variable and the final state, or \<open>None\<close> when a call never returns.
\<close>

datatype 'a call = Push 'a | Pop_try | Pop

datatype 'a outcome =
    Push_returned 'a status
  | Pop_try_returned status 'a
  | Pop_returned 'a

fun run :: "unsigned \<Rightarrow> 'a call list \<Rightarrow> 'a \<Rightarrow> 'a Fifo \<Rightarrow> ('a outcome list \<times> 'a \<times> 'a Fifo) option" where
  "run capacity [] v s = Some ([], v, s)"
| "run capacity (Push x # cs) v s =
     (case push capacity x s of
        (st, s') \<Rightarrow>
          (case run capacity cs v s' of
             None \<Rightarrow> None
           | Some (tr, r) \<Rightarrow> Some (Push_returned x st # tr, r)))"
| "run capacity (Pop_try # cs) v s =
     (case pop_try capacity v s of
        None \<Rightarrow> None
      | Some (st, v', s') \<Rightarrow>
          (case run capacity cs v' s' of
             None \<Rightarrow> None
           | Some (tr, r) \<Rightarrow> Some (Pop_try_returned st v' # tr, r)))"
| "run capacity (Pop # cs) v s =
     (case pop capacity v s of
        None \<Rightarrow> None
      | Some (v', s') \<Rightarrow>
          (case run capacity cs v' s' of
             None \<Rightarrow> None
           | Some (tr, r) \<Rightarrow> Some (Pop_returned v' # tr, r)))"

text \<open>The items of the successful pushes, and the items the successful pops gave back.\<close>

fun pushed_values :: "'a outcome list \<Rightarrow> 'a list" where
  "pushed_values [] = []"
| "pushed_values (Push_returned x st # tr) =
     (if st = FIFO_STATUS_SUCCESS then x # pushed_values tr else pushed_values tr)"
| "pushed_values (Pop_try_returned st v # tr) = pushed_values tr"
| "pushed_values (Pop_returned v # tr) = pushed_values tr"

fun popped_values :: "'a outcome list \<Rightarrow> 'a list" where
  "popped_values [] = []"
| "popped_values (Push_returned x st # tr) = popped_values tr"
| "popped_values (Pop_try_returned st v # tr) =
     (if st = FIFO_STATUS_SUCCESS then v # popped_values tr else popped_values tr)"
| "popped_values (Pop_returned v # tr) = v # popped_values tr"

section \<open>Well-formed states, the invariant and the queue a state stands for\<close>

text \<open>
  Indexing \<open>items\<close> outside the array is undefined behaviour in C++. \<open>fifo_wf\<close> says
  that the array has \<open>capacity\<close> slots and both indices are inside it; the statements
  below that read or write a slot are made for such states.
\<close>

definition fifo_wf :: "unsigned \<Rightarrow> 'a Fifo \<Rightarrow> bool" where
  "fifo_wf capacity s \<longleftrightarrow>
     length (items s) = unat capacity \<and>
     InsertionIndex s < capacity \<and>
     ExtractionIndex s < capacity"

definition fifo_inv :: "unsigned \<Rightarrow> 'a Fifo \<Rightarrow> bool" where
  "fifo_inv capacity s \<longleftrightarrow>
     length (items s) = unat capacity \<and>
     ExtractionIndex s < capacity \<and>
     InsertionIndex s < capacity \<and>
     population s \<le> capacity \<and>
     unat (InsertionIndex s) = (unat (ExtractionIndex s) + unat (population s)) mod unat capacity \<and>
     (DataAvailableEvent s \<longleftrightarrow> population s \<noteq> 0) \<and>
     \<not> mutex s"

text \<open>The live slots: \<open>population\<close> slots from \<open>ExtractionIndex\<close> on, circularly.\<close>

definition queue_contents :: "unsigned \<Rightarrow> 'a Fifo \<Rightarrow> 'a list" where
  "queue_contents capacity s =
     map (\<lambda>k. items s ! ((unat (ExtractionIndex s) + k) mod unat capacity))
       [0..<unat (population s)]"


section \<open>The operations statement by statement, for threads that interleave\<close>

text \<open>
  A thread is at a program counter named after the source line it executes next. The
  step of a thread executes that one statement on the shared object; steps of different
  threads interleave in any order (the header of the source: any thread can pre-empt
  any other at any time). Every statement is one step: \<open>items\<close> and the two indices
  are only accessed inside the critical section, and \<open>population\<close>, a \<open>volatile\<close>
  32-bit member that is only written inside the critical section, is read and written
  as a whole.

  \<open>push_item\<close> is the parameter \<open>item\<close> of \<open>push\<close>; \<open>pop_item\<close> is the caller's
  variable that \<open>itemPtr\<close> points to; \<open>results\<close> lists what the calls of the thread
  have returned so far.
\<close>

datatype pc =
    Idle
  | L282 | L287 | L295 | L298 | L306 | L308 | L309 | L312 | L315
  | L333 | L339 | L342 | L344 | L345 | L348 | L351 | L355
  | L373 | W373 | L380 | L383 | L385 | L386 | L389 | L392 | L396

record 'a thread =
  pc :: pc
  push_item :: 'a
  pop_item :: 'a
  results :: "'a outcome list"

definition goto :: "pc \<Rightarrow> 'a thread \<Rightarrow> 'a thread" where
  "goto l th = th\<lparr>pc := l\<rparr>"

definition return_push :: "status \<Rightarrow> 'a thread \<Rightarrow> 'a thread" where
  "return_push st th = th\<lparr>pc := Idle, results := results th @ [Push_returned (push_item th) st]\<rparr>"

definition return_pop_try :: "status \<Rightarrow> 'a thread \<Rightarrow> 'a thread" where
  "return_pop_try st th = th\<lparr>pc := Idle, results := results th @ [Pop_try_returned st (pop_item th)]\<rparr>"

definition return_pop :: "'a thread \<Rightarrow> 'a thread" where
  "return_pop th = th\<lparr>pc := Idle, results := results th @ [Pop_returned (pop_item th)]\<rparr>"

text \<open>
  One step. \<open>None\<close>: the thread cannot take a step now (it is idle, it waits for the
  critical section at line 339 or 380, or it waits for the event at line 373).
  \<open>W373\<close> is the call of \<open>WaitForSingleObject\<close> of line 373, after the test of
  \<open>population\<close> on the same line.
\<close>

definition step :: "unsigned \<Rightarrow> 'a Fifo \<Rightarrow> 'a thread \<Rightarrow> ('a Fifo \<times> 'a thread) option" where
  "step capacity s th =
     (case pc th of
        Idle \<Rightarrow> None
      | L282 \<Rightarrow> Some (if capacity \<le> population s then (s, return_push FIFO_STATUS_FULL th)
                      else (s, goto L287 th))
      | L287 \<Rightarrow> Some (if mutex s then (s, return_push FIFO_STATUS_LOCKED th)
                      else (s\<lparr>mutex := True\<rparr>, goto L295 th))
      | L295 \<Rightarrow> Some (if capacity \<le> population s then (s, goto L298 th) else (s, goto L306 th))
      | L298 \<Rightarrow> Some (s\<lparr>mutex := False\<rparr>, return_push FIFO_STATUS_PREEMPTED th)
      | L306 \<Rightarrow> Some (s\<lparr>items := (items s)[unat (InsertionIndex s) := push_item th]\<rparr>, goto L308 th)
      | L308 \<Rightarrow> Some (s\<lparr>InsertionIndex := (InsertionIndex s + 1) mod capacity\<rparr>, goto L309 th)
      | L309 \<Rightarrow> Some (s\<lparr>population := population s + 1\<rparr>, goto L312 th)
      | L312 \<Rightarrow> Some (s\<lparr>mutex := False\<rparr>, goto L315 th)
      | L315 \<Rightarrow> Some (s\<lparr>DataAvailableEvent := True\<rparr>, return_push FIFO_STATUS_SUCCESS th)
      | L333 \<Rightarrow> Some (if population s = 0 then (s, return_pop_try FIFO_STATUS_EMPTY th)
                      else (s, goto L339 th))
      | L339 \<Rightarrow> (if mutex s then None else Some (s\<lparr>mutex := True\<rparr>, goto L342 th))
      | L342 \<Rightarrow> Some (s, goto L344 (th\<lparr>pop_item := items s ! unat (ExtractionIndex s)\<rparr>))
      | L344 \<Rightarrow> Some (s\<lparr>ExtractionIndex := (ExtractionIndex s + 1) mod capacity\<rparr>, goto L345 th)
      | L345 \<Rightarrow> Some (s\<lparr>population := population s - 1\<rparr>, goto L348 th)
      | L348 \<Rightarrow> Some (if population s = 0 then (s, goto L351 th) else (s, goto L355 th))
      | L351 \<Rightarrow> Some (s\<lparr>DataAvailableEvent := False\<rparr>, goto L355 th)
      | L355 \<Rightarrow> Some (s\<lparr>mutex := False\<rparr>, return_pop_try FIFO_STATUS_SUCCESS th)
      | L373 \<Rightarrow> Some (if population s = 0 then (s, goto W373 th) else (s, goto L380 th))
      | W373 \<Rightarrow> (if DataAvailableEvent s then Some (s, goto L380 th) else None)
      | L380 \<Rightarrow> (if mutex s then None else Some (s\<lparr>mutex := True\<rparr>, goto L383 th))
      | L383 \<Rightarrow> Some (s, goto L385 (th\<lparr>pop_item := items s ! unat (ExtractionIndex s)\<rparr>))
      | L385 \<Rightarrow> Some (s\<lparr>ExtractionIndex := (ExtractionIndex s + 1) mod capacity\<rparr>, goto L386 th)
      | L386 \<Rightarrow> Some (s\<lparr>population := population s - 1\<rparr>, goto L389 th)
      | L389 \<Rightarrow> Some (if population s = 0 then (s, goto L392 th) else (s, goto L396 th))
      | L392 \<Rightarrow> Some (s\<lparr>DataAvailableEvent := False\<rparr>, goto L396 th)
      | L396 \<Rightarrow> Some (s\<lparr>mutex := False\<rparr>, return_pop th))"

text \<open>An idle thread calls an operation: it moves to the first line of its body.\<close>

definition invoke :: "'a call \<Rightarrow> 'a thread \<Rightarrow> 'a thread option" where
  "invoke c th =
     (if pc th \<noteq> Idle then None
      else Some (case c of
                   Push x \<Rightarrow> th\<lparr>pc := L282, push_item := x\<rparr>
                 | Pop_try \<Rightarrow> th\<lparr>pc := L333\<rparr>
                 | Pop \<Rightarrow> th\<lparr>pc := L373\<rparr>))"

text \<open>A thread that runs alone: exactly \<open>n\<close> steps, and up to \<open>n\<close> steps until the call returns.\<close>

fun steps :: "nat \<Rightarrow> unsigned \<Rightarrow> 'a Fifo \<Rightarrow> 'a thread \<Rightarrow> ('a Fifo \<times> 'a thread) option" where
  "steps 0 capacity s th = Some (s, th)"
| "steps (Suc n) capacity s th =
     (case step capacity s th of
        None \<Rightarrow> None
      | Some (s', th') \<Rightarrow> steps n capacity s' th')"

fun run_call :: "nat \<Rightarrow> unsigned \<Rightarrow> 'a Fifo \<Rightarrow> 'a thread \<Rightarrow> ('a Fifo \<times> 'a thread) option" where
  "run_call 0 capacity s th = (if pc th = Idle then Some (s, th) else None)"
| "run_call (Suc n) capacity s th =
     (if pc th = Idle then Some (s, th)
      else case step capacity s th of
             None \<Rightarrow> None
           | Some (s', th') \<Rightarrow> run_call n capacity s' th')"

text \<open>
  Several threads on one object. An action is a call by an idle thread or a step of a
  thread; a schedule is a list of actions, \<open>None\<close> when one of them is not possible.
\<close>

datatype 'a action = Call nat "'a call" | Step nat

fun act :: "unsigned \<Rightarrow> 'a action \<Rightarrow> 'a Fifo \<times> 'a thread list \<Rightarrow> ('a Fifo \<times> 'a thread list) option" where
  "act capacity (Call t c) (s, ths) =
     (if t < length ths
      then (case invoke c (ths ! t) of
              None \<Rightarrow> None
            | Some th' \<Rightarrow> Some (s, ths[t := th']))
      else None)"
| "act capacity (Step t) (s, ths) =
     (if t < length ths
      then (case step capacity s (ths ! t) of
              None \<Rightarrow> None
            | Some (s', th') \<Rightarrow> Some (s', ths[t := th']))
      else None)"

fun schedule :: "unsigned \<Rightarrow> 'a action list \<Rightarrow> 'a Fifo \<times> 'a thread list \<Rightarrow> ('a Fifo \<times> 'a thread list) option" where
  "schedule capacity [] cfg = Some cfg"
| "schedule capacity (a # as) cfg =
     (case act capacity a cfg of
        None \<Rightarrow> None
      | Some cfg' \<Rightarrow> schedule capacity as cfg')"

definition idle_thread :: "'a \<Rightarrow> 'a thread" where
  "idle_thread v = \<lparr>pc = Idle, push_item = v, pop_item = v, results = []\<rparr>"


section \<open>Two writer threads that race for the last free slot\<close>

text \<open>
  The predicates of the invariant used for two threads \<open>A\<close> and \<open>B\<close> that both execute
  \<open>push\<close>. \<open>last_status\<close> is the status the last call of a thread returned.
\<close>

definition in_critical_section :: "pc \<Rightarrow> bool" where
  "in_critical_section l \<longleftrightarrow>
     l \<in> {L295, L298, L306, L308, L309, L312,
          L342, L344, L345, L348, L351, L355,
          L383, L385, L386, L389, L392, L396}"

definition in_push :: "pc \<Rightarrow> bool" where
  "in_push l \<longleftrightarrow> l \<in> {L282, L287, L295, L298, L306, L308, L309, L312, L315}"

definition last_status :: "'a thread \<Rightarrow> status option" where
  "last_status th =
     (if results th = [] then None
      else (case last (results th) of
              Push_returned x st \<Rightarrow> Some st
            | Pop_try_returned st v \<Rightarrow> Some st
            | Pop_returned v \<Rightarrow> None))"







section \<open>One writer thread and the reader thread\<close>

text \<open>
  The invariant used for a writer thread \<open>W\<close> that executes \<open>push\<close> and the reader
  thread \<open>R\<close> that executes \<open>pop_try\<close>, with their statements interleaved.
  \<open>live_slots c its e n\<close> are the \<open>n\<close> slots of \<open>its\<close> from index \<open>e\<close> on, circularly.
\<close>

definition live_slots :: "nat \<Rightarrow> 'a list \<Rightarrow> nat \<Rightarrow> nat \<Rightarrow> 'a list" where
  "live_slots c its e n = map (\<lambda>k. its ! ((e + k) mod c)) [0..<n]"

definition in_pop_try :: "pc \<Rightarrow> bool" where
  "in_pop_try l \<longleftrightarrow> l \<in> {L333, L339, L342, L344, L345, L348, L351, L355}"

text \<open>An item that is counted in \<open>population\<close> while its \<open>push\<close> has not returned yet.\<close>

definition pending_push :: "'a thread \<Rightarrow> 'a list" where
  "pending_push W = (if pc W = L312 \<or> pc W = L315 then [push_item W] else [])"

text \<open>An item that \<open>pop_try\<close> has taken out of the queue while it has not returned yet.\<close>

definition pending_pop :: "'a thread \<Rightarrow> 'a list" where
  "pending_pop R =
     (if pc R = L345 \<or> pc R = L348 \<or> pc R = L351 \<or> pc R = L355 then [pop_item R] else [])"

text \<open>
  The number of queued items: between lines 344 and 345 of the reader the extraction
  index is already advanced and \<open>population\<close> is not yet decremented.
\<close>

definition queued :: "'a Fifo \<Rightarrow> 'a thread \<Rightarrow> nat" where
  "queued s R = (if pc R = L345 then unat (population s) - 1 else unat (population s))"

definition wr_inv :: "unsigned \<Rightarrow> 'a Fifo \<Rightarrow> 'a thread \<Rightarrow> 'a thread \<Rightarrow> bool" where
  "wr_inv capacity s W R \<longleftrightarrow>
     (pc W = Idle \<or> in_push (pc W)) \<and>
     (pc R = Idle \<or> in_pop_try (pc R)) \<and>
     fifo_wf capacity s \<and>
     (mutex s \<longleftrightarrow> in_critical_section (pc W) \<or> in_critical_section (pc R)) \<and>
     \<not> (in_critical_section (pc W) \<and> in_critical_section (pc R)) \<and>
     population s \<le> capacity \<and>
     (pc W = L306 \<or> pc W = L308 \<or> pc W = L309 \<longrightarrow> population s < capacity) \<and>
     (pc R = L339 \<or> pc R = L342 \<or> pc R = L344 \<or> pc R = L345 \<longrightarrow> population s \<noteq> 0) \<and>
     unat (InsertionIndex s) =
       (unat (ExtractionIndex s) + queued s R + (if pc W = L309 then 1 else 0)) mod unat capacity \<and>
     (pc W = L308 \<or> pc W = L309 \<longrightarrow>
        items s ! ((unat (ExtractionIndex s) + unat (population s)) mod unat capacity) = push_item W) \<and>
     (pc R = L344 \<longrightarrow> pop_item R = items s ! unat (ExtractionIndex s)) \<and>
     pushed_values (results W) @ pending_push W =
       popped_values (results R) @ pending_pop R @
       live_slots (unat capacity) (items s) (unat (ExtractionIndex s)) (queued s R)"

text \<open>The actions of the two threads: thread 0 calls \<open>push\<close>, thread 1 calls \<open>pop_try\<close>.\<close>

fun writer_reader :: "'a action \<Rightarrow> bool" where
  "writer_reader (Call t (Push x)) = (t = 0)"
| "writer_reader (Call t Pop_try) = (t = 1)"
| "writer_reader (Call t Pop) = False"
| "writer_reader (Step t) = (t < 2)"


section \<open>Arithmetic of the indices and the counter\<close>

lemma unat_succ_lt:
  assumes "(p::unsigned) < c"
  shows "unat (p + 1) = unat p + 1"
proof -
  from assms have "unat p < unat c" by (simp add: word_less_nat_alt)
  moreover have "unat c < 2^32" using unsigned_less[of c, where ?'a = nat] by simp
  ultimately have "unat p + 1 < 2^32" by simp
  then show ?thesis by (simp add: unat_word_ariths)
qed

lemma unat_succ_mod: "(i::unsigned) < c \<Longrightarrow> unat ((i + 1) mod c) = (unat i + 1) mod unat c"
  by (simp add: unat_mod unat_succ_lt)

lemma unat_pred: "(p::unsigned) \<noteq> 0 \<Longrightarrow> unat (p - 1) = unat p - 1"
  by (simp add: unat_minus_one)

lemma succ_mod_less: "(i::unsigned) < c \<Longrightarrow> (i + 1) mod c < c"
  by (simp add: word_less_nat_alt unat_succ_mod)

lemma mod_eq_small_le:
  fixes e k p c :: nat
  assumes "(e + k) mod c = (e + p) mod c" "k \<le> p" "p < c"
  shows "k = p"
proof -
  from assms(1,2) have "c dvd (e + p) - (e + k)"
    using mod_eq_dvd_iff_nat[of "e + k" "e + p" c] by simp
  then have "c dvd p - k" by simp
  moreover have "p - k < c" using assms by simp
  ultimately have "p - k = 0" by (metis dvd_imp_le not_less zero_less_iff_neq_zero)
  with assms(2) show ?thesis by simp
qed

lemma mod_eq_small:
  fixes e k p c :: nat
  assumes "(e + k) mod c = (e + p) mod c" "k < c" "p < c"
  shows "k = p"
proof (cases "k \<le> p")
  case True
  with assms show ?thesis by (rule_tac mod_eq_small_le) auto
next
  case False
  then have "p \<le> k" by simp
  with assms have "p = k" by (rule_tac mod_eq_small_le[of e p c k]) auto
  then show ?thesis by simp
qed

section \<open>The invariant holds after the constructor and after every call that returns\<close>

lemma fifo_inv_ctor: "0 < capacity \<Longrightarrow> length junk = unat capacity \<Longrightarrow> fifo_inv capacity (Fifo_ctor junk)"
  by (simp add: fifo_inv_def Fifo_ctor_def)

lemma queue_contents_ctor: "queue_contents capacity (Fifo_ctor junk) = []"
  by (simp add: queue_contents_def Fifo_ctor_def)

lemma length_queue_contents: "length (queue_contents capacity s) = unat (population s)"
  by (simp add: queue_contents_def)

lemma push_full: "capacity \<le> population s \<Longrightarrow> push capacity x s = (FIFO_STATUS_FULL, s)"
  by (simp add: push_def)

lemma push_inv:
  assumes inv: "fifo_inv capacity s" and nf: "population s < capacity"
  shows "\<exists>s'. push capacity x s = (FIFO_STATUS_SUCCESS, s') \<and> fifo_inv capacity s' \<and>
           queue_contents capacity s' = queue_contents capacity s @ [x]"
proof -
  let ?e = "unat (ExtractionIndex s)" and ?p = "unat (population s)" and ?c = "unat capacity"
  let ?i = "unat (InsertionIndex s)"
  let ?s' = "s\<lparr>items := (items s)[?i := x], InsertionIndex := (InsertionIndex s + 1) mod capacity,
              population := population s + 1, DataAvailableEvent := True\<rparr>"
  from inv have len: "length (items s) = ?c" and e: "?e < ?c" and i: "?i < ?c"
    and ie: "?i = (?e + ?p) mod ?c" and nm: "\<not> mutex s" and ilt: "InsertionIndex s < capacity"
    by (simp_all add: fifo_inv_def word_less_nat_alt)
  from nf have p: "?p < ?c" by (simp add: word_less_nat_alt)
  have p1: "unat (population s + 1) = ?p + 1" using nf by (rule unat_succ_lt)
  have i1: "unat ((InsertionIndex s + 1) mod capacity) = (?i + 1) mod ?c"
    using ilt by (rule unat_succ_mod)
  have eq: "push capacity x s = (FIFO_STATUS_SUCCESS, ?s')"
    using nf nm by (simp add: push_def Let_def not_le[symmetric])
  have ne0: "population s + 1 \<noteq> 0"
    using p1 by (metis add_is_0 unat_0 zero_neq_one)
  have le: "population s + 1 \<le> capacity"
    using p p1 by (simp add: word_le_nat_alt)
  have "(?i + 1) mod ?c = (?e + (?p + 1)) mod ?c"
    using ie by (metis add.assoc mod_add_left_eq)
  then have inv': "fifo_inv capacity ?s'"
    using inv le ne0 p1 i1 ilt by (simp add: fifo_inv_def succ_mod_less)
  have old: "map (\<lambda>k. (items s)[?i := x] ! ((?e + k) mod ?c)) [0..<?p]
             = map (\<lambda>k. items s ! ((?e + k) mod ?c)) [0..<?p]"
  proof (rule map_cong[OF refl])
    fix k assume "k \<in> set [0..<?p]"
    then have k: "k < ?p" by simp
    have "(?e + k) mod ?c \<noteq> ?i"
    proof
      assume "(?e + k) mod ?c = ?i"
      with ie have "(?e + k) mod ?c = (?e + ?p) mod ?c" by simp
      then have "k = ?p" using k p by (intro mod_eq_small[of ?e k ?c ?p]) auto
      with k show False by simp
    qed
    then show "(items s)[?i := x] ! ((?e + k) mod ?c) = items s ! ((?e + k) mod ?c)"
      by simp
  qed
  have new: "(items s)[?i := x] ! ((?e + ?p) mod ?c) = x"
    using ie i len by simp
  have "queue_contents capacity ?s' = queue_contents capacity s @ [x]"
    by (simp add: queue_contents_def p1 old new)
  with eq inv' show ?thesis by blast
qed

lemma pop_try_empty: "population s = 0 \<Longrightarrow> pop_try capacity v s = Some (FIFO_STATUS_EMPTY, v, s)"
  by (simp add: pop_try_def)

lemma pop_try_inv:
  assumes inv: "fifo_inv capacity s" and ne: "population s \<noteq> 0"
  shows "\<exists>v' s'. pop_try capacity v s = Some (FIFO_STATUS_SUCCESS, v', s') \<and> fifo_inv capacity s' \<and>
           queue_contents capacity s = v' # queue_contents capacity s'"
proof -
  let ?e = "unat (ExtractionIndex s)" and ?p = "unat (population s)" and ?c = "unat capacity"
  let ?i = "unat (InsertionIndex s)"
  let ?s' = "s\<lparr>ExtractionIndex := (ExtractionIndex s + 1) mod capacity,
              population := population s - 1,
              DataAvailableEvent := (population s - 1 \<noteq> 0)\<rparr>"
  from inv have len: "length (items s) = ?c" and e: "?e < ?c" and i: "?i < ?c"
    and ie: "?i = (?e + ?p) mod ?c" and nm: "\<not> mutex s" and elt: "ExtractionIndex s < capacity"
    and ple: "?p \<le> ?c" and ev: "DataAvailableEvent s"
    using ne by (simp_all add: fifo_inv_def word_less_nat_alt word_le_nat_alt)
  from ne have p: "0 < ?p" by (simp add: unat_gt_0)
  have p1: "unat (population s - 1) = ?p - 1" using ne by (rule unat_pred)
  have e1: "unat ((ExtractionIndex s + 1) mod capacity) = (?e + 1) mod ?c"
    using elt by (rule unat_succ_mod)
  have eq: "pop_try capacity v s = Some (FIFO_STATUS_SUCCESS, items s ! ?e, ?s')"
    using ne nm ev by (auto simp add: pop_try_def Let_def)
  have le: "population s - 1 \<le> capacity"
    using ple p1 by (simp add: word_le_nat_alt)
  have "((?e + 1) mod ?c + (?p - 1)) mod ?c = ((?e + 1) + (?p - 1)) mod ?c"
    by (rule mod_add_left_eq)
  also have "(?e + 1) + (?p - 1) = ?e + ?p" using p by simp
  finally have "((?e + 1) mod ?c + (?p - 1)) mod ?c = (?e + ?p) mod ?c" .
  then have inv': "fifo_inv capacity ?s'"
    using inv le p1 e1 elt ie by (simp add: fifo_inv_def succ_mod_less)
  have upt: "[0..<?p] = 0 # map Suc [0..<?p - 1]"
    using p by (metis Suc_pred' map_Suc_upt upt_conv_Cons)
  have shift: "\<And>k. (Suc ?e mod ?c + k) mod ?c = Suc (?e + k) mod ?c"
    by (simp add: mod_add_left_eq)
  have "queue_contents capacity s = items s ! ?e # queue_contents capacity ?s'"
    unfolding queue_contents_def
    apply (subst upt)
    using e by (simp add: p1 e1 shift o_def)
  with eq inv' show ?thesis by blast
qed

lemma pop_as_pop_try:
  "population s \<noteq> 0 \<Longrightarrow>
   pop capacity v s = (case pop_try capacity v s of None \<Rightarrow> None | Some (st, v', s') \<Rightarrow> Some (v', s'))"
  by (simp add: pop_def pop_try_def Let_def)

lemma pop_inv_empty: "fifo_inv capacity s \<Longrightarrow> population s = 0 \<Longrightarrow> pop capacity v s = None"
  by (simp add: pop_def fifo_inv_def)

lemma pop_inv:
  assumes inv: "fifo_inv capacity s" and ne: "population s \<noteq> 0"
  shows "\<exists>v' s'. pop capacity v s = Some (v', s') \<and> fifo_inv capacity s' \<and>
           queue_contents capacity s = v' # queue_contents capacity s'"
  using pop_try_inv[OF inv ne, of v] pop_as_pop_try[OF ne, of capacity v] by auto

lemma run_inv:
  "fifo_inv capacity s \<Longrightarrow> run capacity cs v s = Some (tr, v', s') \<Longrightarrow>
   fifo_inv capacity s' \<and>
   queue_contents capacity s @ pushed_values tr = popped_values tr @ queue_contents capacity s'"
proof (induction cs arbitrary: v s tr)
  case Nil
  then show ?case by simp
next
  case (Cons c cs)
  show ?case
  proof (cases c)
    case (Push x)
    obtain st s1 where p: "push capacity x s = (st, s1)" by (cases "push capacity x s")
    with Cons.prems(2) Push obtain tr1 where
      r: "run capacity cs v s1 = Some (tr1, v', s')" and tr: "tr = Push_returned x st # tr1"
      by (auto split: option.splits)
    show ?thesis
    proof (cases "capacity \<le> population s")
      case True
      with p have "st = FIFO_STATUS_FULL" "s1 = s" by (simp_all add: push_full)
      with Cons.IH[OF Cons.prems(1), of v tr1] r tr show ?thesis by simp
    next
      case False
      then have "population s < capacity" by simp
      from push_inv[OF Cons.prems(1) this, of x] p
      have st: "st = FIFO_STATUS_SUCCESS" and i1: "fifo_inv capacity s1"
        and q: "queue_contents capacity s1 = queue_contents capacity s @ [x]" by auto
      from Cons.IH[OF i1 r] q st tr show ?thesis by simp
    qed
  next
    case Pop_try
    show ?thesis
    proof (cases "population s = 0")
      case True
      with Cons.prems(2) Pop_try obtain tr1 where
        r: "run capacity cs v s = Some (tr1, v', s')" and tr: "tr = Pop_try_returned FIFO_STATUS_EMPTY v # tr1"
        by (auto simp: pop_try_empty split: option.splits)
      with Cons.IH[OF Cons.prems(1) r] show ?thesis by simp
    next
      case False
      from pop_try_inv[OF Cons.prems(1) False, of v] obtain v1 s1 where
        p: "pop_try capacity v s = Some (FIFO_STATUS_SUCCESS, v1, s1)" and i1: "fifo_inv capacity s1"
        and q: "queue_contents capacity s = v1 # queue_contents capacity s1" by blast
      with Cons.prems(2) Pop_try obtain tr1 where
        r: "run capacity cs v1 s1 = Some (tr1, v', s')" and tr: "tr = Pop_try_returned FIFO_STATUS_SUCCESS v1 # tr1"
        by (auto split: option.splits)
      from Cons.IH[OF i1 r] q tr show ?thesis by simp
    qed
  next
    case Pop
    show ?thesis
    proof (cases "population s = 0")
      case True
      with Cons.prems Pop show ?thesis by (simp add: pop_inv_empty)
    next
      case False
      from pop_inv[OF Cons.prems(1) False, of v] obtain v1 s1 where
        p: "pop capacity v s = Some (v1, s1)" and i1: "fifo_inv capacity s1"
        and q: "queue_contents capacity s = v1 # queue_contents capacity s1" by blast
      with Cons.prems(2) Pop obtain tr1 where
        r: "run capacity cs v1 s1 = Some (tr1, v', s')" and tr: "tr = Pop_returned v1 # tr1"
        by (auto split: option.splits)
      from Cons.IH[OF i1 r] q tr show ?thesis by simp
    qed
  qed
qed


section \<open>A thread that runs alone executes the operations of the previous sections\<close>

lemma push_run_call:
  "run_call 9 capacity s (th\<lparr>pc := L282, push_item := x\<rparr>) =
     Some (snd (push capacity x s),
           th\<lparr>pc := Idle, push_item := x,
              results := results th @ [Push_returned x (fst (push capacity x s))]\<rparr>)"
  by (simp add: eval_nat_numeral step_def push_def goto_def return_push_def Let_def)

lemma pop_try_run_call:
  "run_call 9 capacity s (th\<lparr>pc := L333\<rparr>) =
     (case pop_try capacity (pop_item th) s of
        None \<Rightarrow> None
      | Some (st, v, s') \<Rightarrow>
          Some (s', th\<lparr>pc := Idle, pop_item := v,
                       results := results th @ [Pop_try_returned st v]\<rparr>))"
  by (simp add: eval_nat_numeral step_def pop_try_def goto_def return_pop_try_def Let_def)

lemma pop_run_call:
  "run_call 9 capacity s (th\<lparr>pc := L373\<rparr>) =
     (case pop capacity (pop_item th) s of
        None \<Rightarrow> None
      | Some (v, s') \<Rightarrow>
          Some (s', th\<lparr>pc := Idle, pop_item := v, results := results th @ [Pop_returned v]\<rparr>))"
  by (simp add: eval_nat_numeral step_def pop_def goto_def return_pop_def Let_def)



section \<open>Two writer threads and one free slot: the invariant is kept\<close>



lemma pc_goto: "pc (goto l th) = l"
  and results_goto: "results (goto l th) = results th"
  and push_item_goto: "push_item (goto l th) = push_item th"
  and last_status_goto: "last_status (goto l th) = last_status th"
  and pc_return_push: "pc (return_push st th) = Idle"
  and push_item_return_push: "push_item (return_push st th) = push_item th"
  and results_return_push: "results (return_push st th) = results th @ [Push_returned (push_item th) st]"
  and last_status_return_push: "last_status (return_push st th) = Some st"
  by (simp_all add: goto_def return_push_def last_status_def)










lemma push_step_enabled: "in_push (pc th) \<Longrightarrow> step capacity s th \<noteq> None"
  by (auto simp: in_push_def step_def)



section \<open>One writer thread and the reader thread: the invariant is kept\<close>

lemma queue_contents_live:
  "queue_contents capacity s =
     live_slots (unat capacity) (items s) (unat (ExtractionIndex s)) (unat (population s))"
  by (simp add: queue_contents_def live_slots_def)

lemma live_update_outside:
  assumes "i = (e + n) mod c" and "n < c"
  shows "live_slots c (its[i := x]) e n = live_slots c its e n"
  unfolding live_slots_def
proof (rule map_cong[OF refl])
  fix k assume "k \<in> set [0..<n]"
  then have k: "k < n" by simp
  have "(e + k) mod c \<noteq> i"
  proof
    assume "(e + k) mod c = i"
    with assms(1) have "(e + k) mod c = (e + n) mod c" by simp
    then have "k = n" using k assms(2) by (intro mod_eq_small[of e k c n]) auto
    with k show False by simp
  qed
  then show "its[i := x] ! ((e + k) mod c) = its ! ((e + k) mod c)" by simp
qed

lemma live_snoc: "live_slots c its e (Suc n) = live_slots c its e n @ [its ! ((e + n) mod c)]"
  by (simp add: live_slots_def)

lemma live_shift:
  assumes "0 < n" and "e < c"
  shows "live_slots c its e n = its ! e # live_slots c its ((e + 1) mod c) (n - 1)"
proof -
  have upt: "[0..<n] = 0 # map Suc [0..<n - 1]"
    using assms(1) by (metis Suc_pred' map_Suc_upt upt_conv_Cons)
  have shift: "\<And>k. (Suc e mod c + k) mod c = Suc (e + k) mod c"
    by (simp add: mod_add_left_eq)
  show ?thesis
    unfolding live_slots_def
    apply (subst upt)
    using assms(2) by (simp add: shift o_def)
qed

lemma pushed_values_append: "pushed_values (xs @ ys) = pushed_values xs @ pushed_values ys"
  by (induction xs rule: pushed_values.induct) simp_all

lemma popped_values_append: "popped_values (xs @ ys) = popped_values xs @ popped_values ys"
  by (induction xs rule: popped_values.induct) simp_all

lemma pc_return_pop_try: "pc (return_pop_try st th) = Idle"
  and pop_item_return_pop_try: "pop_item (return_pop_try st th) = pop_item th"
  and results_return_pop_try:
    "results (return_pop_try st th) = results th @ [Pop_try_returned st (pop_item th)]"
  and pop_item_goto: "pop_item (goto l th) = pop_item th"
  by (simp_all add: goto_def return_pop_try_def)

lemmas wr_simps =
  pc_goto results_goto push_item_goto pop_item_goto pc_return_push push_item_return_push
  results_return_push pc_return_pop_try pop_item_return_pop_try results_return_pop_try
  pushed_values_append popped_values_append

lemma reader_cases:
  assumes "pc R = Idle \<or> in_pop_try (pc R)"
  obtains "pc R = Idle" | "pc R = L333" | "pc R = L339" | "pc R = L342" | "pc R = L344"
    | "pc R = L345" | "pc R = L348" | "pc R = L351" | "pc R = L355"
  using assms by (auto simp: in_pop_try_def)

lemma writer_cases:
  assumes "pc W = Idle \<or> in_push (pc W)"
  obtains "pc W = Idle" | "pc W = L282" | "pc W = L287" | "pc W = L295" | "pc W = L298"
    | "pc W = L306" | "pc W = L308" | "pc W = L309" | "pc W = L312" | "pc W = L315"
  using assms by (auto simp: in_push_def)
lemma live_update_at_end:
  "n < c \<Longrightarrow> live_slots c (its[(e + n) mod c := x]) e n = live_slots c its e n"
  by (rule live_update_outside) simp_all

lemma writer_step_L306:
  assumes inv: "wr_inv capacity s W R"
    and st: "step capacity s W = Some (s', W')"
    and at: "pc W = L306"
  shows "wr_inv capacity s' W' R"
proof -
  note defs = wr_inv_def fifo_wf_def in_push_def in_pop_try_def in_critical_section_def
    pending_push_def pending_pop_def queued_def wr_simps
  from inv have rok: "pc R = Idle \<or> in_pop_try (pc R)"
    by (simp_all add: wr_inv_def)
  from inv have "ExtractionIndex s < capacity" by (simp add: wr_inv_def fifo_wf_def)
  then have c0: "capacity \<noteq> 0" by auto
  then have c1: "0 < unat capacity" by (simp add: unat_gt_0)
  from inv at have p: "unat (population s) < unat capacity"
    by (simp add: wr_inv_def word_less_nat_alt)
  from st at have *: "s' = s\<lparr>items := (items s)[unat (InsertionIndex s) := push_item W]\<rparr>" "W' = goto L308 W"
    by (auto simp: step_def)
  from rok show ?thesis
    apply (cases rule: reader_cases)
    using inv at c0 c1 p unfolding *
            apply (simp_all add: defs live_update_at_end)
    done
qed

lemma writer_step_L308:
  assumes inv: "wr_inv capacity s W R"
    and st: "step capacity s W = Some (s', W')"
    and at: "pc W = L308"
  shows "wr_inv capacity s' W' R"
proof -
  note defs = wr_inv_def fifo_wf_def in_push_def in_pop_try_def in_critical_section_def
    pending_push_def pending_pop_def queued_def wr_simps
  from inv have rok: "pc R = Idle \<or> in_pop_try (pc R)"
    by (simp_all add: wr_inv_def)
  from inv have "ExtractionIndex s < capacity" by (simp add: wr_inv_def fifo_wf_def)
  then have c0: "capacity \<noteq> 0" by auto
  from inv have i: "InsertionIndex s < capacity" by (simp add: wr_inv_def fifo_wf_def)
  note i1 = unat_succ_mod[OF i] and i2 = succ_mod_less[OF i]
  from st at have *: "s' = s\<lparr>InsertionIndex := (InsertionIndex s + 1) mod capacity\<rparr>" "W' = goto L309 W"
    by (auto simp: step_def)
  from rok show ?thesis
    apply (cases rule: reader_cases)
    using inv at c0 i1 i2 unfolding *
            apply (simp_all add: defs mod_Suc_eq)
    done
qed

lemma writer_step_L309:
  assumes inv: "wr_inv capacity s W R"
    and st: "step capacity s W = Some (s', W')"
    and at: "pc W = L309"
  shows "wr_inv capacity s' W' R"
proof -
  note defs = wr_inv_def fifo_wf_def in_push_def in_pop_try_def in_critical_section_def
    pending_push_def pending_pop_def queued_def wr_simps
  from inv have rok: "pc R = Idle \<or> in_pop_try (pc R)"
    by (simp_all add: wr_inv_def)
  from inv have "ExtractionIndex s < capacity" by (simp add: wr_inv_def fifo_wf_def)
  then have c0: "capacity \<noteq> 0" by auto
  from inv at have p: "population s < capacity" by (simp add: wr_inv_def)
  have p1: "unat (population s + 1) = Suc (unat (population s))" using unat_succ_lt[OF p] by simp
  have p2: "population s + 1 \<le> capacity"
    using p p1 by (simp add: word_le_nat_alt word_less_nat_alt)
  have p3: "population s + 1 \<noteq> 0"
    using p1 by (metis Zero_not_Suc unat_0)
  from st at have *: "s' = s\<lparr>population := population s + 1\<rparr>" "W' = goto L312 W"
    by (auto simp: step_def)
  from rok show ?thesis
    apply (cases rule: reader_cases)
    using inv at c0 p1 p2 p3 unfolding *
            apply (simp_all add: defs live_snoc)
    done
qed


lemma writer_step_L282:
  assumes inv: "wr_inv capacity s W R"
    and st: "step capacity s W = Some (s', W')"
    and at: "pc W = L282"
  shows "wr_inv capacity s' W' R"
proof -
  note defs = wr_inv_def fifo_wf_def in_push_def in_pop_try_def in_critical_section_def
    pending_push_def pending_pop_def queued_def wr_simps
  from inv have rok: "pc R = Idle \<or> in_pop_try (pc R)"
    by (simp_all add: wr_inv_def)
  from inv have "ExtractionIndex s < capacity" by (simp add: wr_inv_def fifo_wf_def)
  then have c0: "capacity \<noteq> 0" by auto
  show ?thesis
  proof (cases "capacity \<le> population s")
    case True
    with st at have *: "s' = s" "W' = return_push FIFO_STATUS_FULL W"
      by (auto simp: step_def)
    from rok show ?thesis
      apply (cases rule: reader_cases)
      using True inv at c0 unfolding *
              apply (simp_all add: defs)
      done
  next
    case False
    with st at have *: "s' = s" "W' = goto L287 W"
      by (auto simp: step_def)
    from rok show ?thesis
      apply (cases rule: reader_cases)
      using False inv at c0 unfolding *
              apply (simp_all add: defs)
      done
  qed
qed

lemma writer_step_L287:
  assumes inv: "wr_inv capacity s W R"
    and st: "step capacity s W = Some (s', W')"
    and at: "pc W = L287"
  shows "wr_inv capacity s' W' R"
proof -
  note defs = wr_inv_def fifo_wf_def in_push_def in_pop_try_def in_critical_section_def
    pending_push_def pending_pop_def queued_def wr_simps
  from inv have rok: "pc R = Idle \<or> in_pop_try (pc R)"
    by (simp_all add: wr_inv_def)
  from inv have "ExtractionIndex s < capacity" by (simp add: wr_inv_def fifo_wf_def)
  then have c0: "capacity \<noteq> 0" by auto
  show ?thesis
  proof (cases "mutex s")
    case True
    with st at have *: "s' = s" "W' = return_push FIFO_STATUS_LOCKED W"
      by (auto simp: step_def)
    from rok show ?thesis
      apply (cases rule: reader_cases)
      using True inv at c0 unfolding *
              apply (simp_all add: defs)
      done
  next
    case False
    with st at have *: "s' = s\<lparr>mutex := True\<rparr>" "W' = goto L295 W"
      by (auto simp: step_def)
    from rok show ?thesis
      apply (cases rule: reader_cases)
      using False inv at c0 unfolding *
              apply (simp_all add: defs)
      done
  qed
qed

lemma writer_step_L295:
  assumes inv: "wr_inv capacity s W R"
    and st: "step capacity s W = Some (s', W')"
    and at: "pc W = L295"
  shows "wr_inv capacity s' W' R"
proof -
  note defs = wr_inv_def fifo_wf_def in_push_def in_pop_try_def in_critical_section_def
    pending_push_def pending_pop_def queued_def wr_simps
  from inv have rok: "pc R = Idle \<or> in_pop_try (pc R)"
    by (simp_all add: wr_inv_def)
  from inv have "ExtractionIndex s < capacity" by (simp add: wr_inv_def fifo_wf_def)
  then have c0: "capacity \<noteq> 0" by auto
  show ?thesis
  proof (cases "capacity \<le> population s")
    case True
    with st at have *: "s' = s" "W' = goto L298 W"
      by (auto simp: step_def)
    from rok show ?thesis
      apply (cases rule: reader_cases)
      using True inv at c0 unfolding *
              apply (simp_all add: defs)
      done
  next
    case False
    with st at have *: "s' = s" "W' = goto L306 W"
      by (auto simp: step_def)
    from rok show ?thesis
      apply (cases rule: reader_cases)
      using False inv at c0 unfolding *
              apply (simp_all add: defs)
      done
  qed
qed

lemma writer_step_L298:
  assumes inv: "wr_inv capacity s W R"
    and st: "step capacity s W = Some (s', W')"
    and at: "pc W = L298"
  shows "wr_inv capacity s' W' R"
proof -
  note defs = wr_inv_def fifo_wf_def in_push_def in_pop_try_def in_critical_section_def
    pending_push_def pending_pop_def queued_def wr_simps
  from inv have rok: "pc R = Idle \<or> in_pop_try (pc R)"
    by (simp_all add: wr_inv_def)
  from inv have "ExtractionIndex s < capacity" by (simp add: wr_inv_def fifo_wf_def)
  then have c0: "capacity \<noteq> 0" by auto
  from st at have *: "s' = s\<lparr>mutex := False\<rparr>" "W' = return_push FIFO_STATUS_PREEMPTED W"
    by (auto simp: step_def)
  from rok show ?thesis
    apply (cases rule: reader_cases)
    using inv at c0 unfolding *
            apply (simp_all add: defs)
    done
qed

lemma writer_step_L312:
  assumes inv: "wr_inv capacity s W R"
    and st: "step capacity s W = Some (s', W')"
    and at: "pc W = L312"
  shows "wr_inv capacity s' W' R"
proof -
  note defs = wr_inv_def fifo_wf_def in_push_def in_pop_try_def in_critical_section_def
    pending_push_def pending_pop_def queued_def wr_simps
  from inv have rok: "pc R = Idle \<or> in_pop_try (pc R)"
    by (simp_all add: wr_inv_def)
  from inv have "ExtractionIndex s < capacity" by (simp add: wr_inv_def fifo_wf_def)
  then have c0: "capacity \<noteq> 0" by auto
  from st at have *: "s' = s\<lparr>mutex := False\<rparr>" "W' = goto L315 W"
    by (auto simp: step_def)
  from rok show ?thesis
    apply (cases rule: reader_cases)
    using inv at c0 unfolding *
            apply (simp_all add: defs)
    done
qed

lemma writer_step_L315:
  assumes inv: "wr_inv capacity s W R"
    and st: "step capacity s W = Some (s', W')"
    and at: "pc W = L315"
  shows "wr_inv capacity s' W' R"
proof -
  note defs = wr_inv_def fifo_wf_def in_push_def in_pop_try_def in_critical_section_def
    pending_push_def pending_pop_def queued_def wr_simps
  from inv have rok: "pc R = Idle \<or> in_pop_try (pc R)"
    by (simp_all add: wr_inv_def)
  from inv have "ExtractionIndex s < capacity" by (simp add: wr_inv_def fifo_wf_def)
  then have c0: "capacity \<noteq> 0" by auto
  from st at have *: "s' = s\<lparr>DataAvailableEvent := True\<rparr>" "W' = return_push FIFO_STATUS_SUCCESS W"
    by (auto simp: step_def)
  from rok show ?thesis
    apply (cases rule: reader_cases)
    using inv at c0 unfolding *
            apply (simp_all add: defs)
    done
qed

lemma reader_step_L333:
  assumes inv: "wr_inv capacity s W R"
    and st: "step capacity s R = Some (s', R')"
    and at: "pc R = L333"
  shows "wr_inv capacity s' W R'"
proof -
  note defs = wr_inv_def fifo_wf_def in_push_def in_pop_try_def in_critical_section_def
    pending_push_def pending_pop_def queued_def wr_simps
  from inv have wok: "pc W = Idle \<or> in_push (pc W)"
    by (simp_all add: wr_inv_def)
  from inv have "ExtractionIndex s < capacity" by (simp add: wr_inv_def fifo_wf_def)
  then have c0: "capacity \<noteq> 0" by auto
  show ?thesis
  proof (cases "population s = 0")
    case True
    with st at have *: "s' = s" "R' = return_pop_try FIFO_STATUS_EMPTY R"
      by (auto simp: step_def)
    from wok show ?thesis
      apply (cases rule: writer_cases)
      using True inv at c0 unfolding *
               apply (simp_all add: defs)
      done
  next
    case False
    with st at have *: "s' = s" "R' = goto L339 R"
      by (auto simp: step_def)
    from wok show ?thesis
      apply (cases rule: writer_cases)
      using False inv at c0 unfolding *
               apply (simp_all add: defs)
      done
  qed
qed

lemma reader_step_L339:
  assumes inv: "wr_inv capacity s W R"
    and st: "step capacity s R = Some (s', R')"
    and at: "pc R = L339"
  shows "wr_inv capacity s' W R'"
proof -
  note defs = wr_inv_def fifo_wf_def in_push_def in_pop_try_def in_critical_section_def
    pending_push_def pending_pop_def queued_def wr_simps
  from inv have wok: "pc W = Idle \<or> in_push (pc W)"
    by (simp_all add: wr_inv_def)
  from inv have "ExtractionIndex s < capacity" by (simp add: wr_inv_def fifo_wf_def)
  then have c0: "capacity \<noteq> 0" by auto
  from st at have nm: "\<not> mutex s" by (auto simp: step_def split: if_splits)
  from st at have *: "s' = s\<lparr>mutex := True\<rparr>" "R' = goto L342 R"
    by (auto simp: step_def split: if_splits)
  from wok show ?thesis
    apply (cases rule: writer_cases)
    using inv at c0 nm unfolding *
             apply (simp_all add: defs)
    done
qed

lemma reader_step_L342:
  assumes inv: "wr_inv capacity s W R"
    and st: "step capacity s R = Some (s', R')"
    and at: "pc R = L342"
  shows "wr_inv capacity s' W R'"
proof -
  note defs = wr_inv_def fifo_wf_def in_push_def in_pop_try_def in_critical_section_def
    pending_push_def pending_pop_def queued_def wr_simps
  from inv have wok: "pc W = Idle \<or> in_push (pc W)"
    by (simp_all add: wr_inv_def)
  from inv have "ExtractionIndex s < capacity" by (simp add: wr_inv_def fifo_wf_def)
  then have c0: "capacity \<noteq> 0" by auto
  from st at have *: "s' = s" "R' = goto L344 (R\<lparr>pop_item := items s ! unat (ExtractionIndex s)\<rparr>)"
    by (auto simp: step_def split: if_splits)
  from wok show ?thesis
    apply (cases rule: writer_cases)
    using inv at c0  unfolding *
             apply (simp_all add: defs)
    done
qed

lemma reader_step_L348:
  assumes inv: "wr_inv capacity s W R"
    and st: "step capacity s R = Some (s', R')"
    and at: "pc R = L348"
  shows "wr_inv capacity s' W R'"
proof -
  note defs = wr_inv_def fifo_wf_def in_push_def in_pop_try_def in_critical_section_def
    pending_push_def pending_pop_def queued_def wr_simps
  from inv have wok: "pc W = Idle \<or> in_push (pc W)"
    by (simp_all add: wr_inv_def)
  from inv have "ExtractionIndex s < capacity" by (simp add: wr_inv_def fifo_wf_def)
  then have c0: "capacity \<noteq> 0" by auto
  show ?thesis
  proof (cases "population s = 0")
    case True
    with st at have *: "s' = s" "R' = goto L351 R"
      by (auto simp: step_def)
    from wok show ?thesis
      apply (cases rule: writer_cases)
      using True inv at c0 unfolding *
               apply (simp_all add: defs)
      done
  next
    case False
    with st at have *: "s' = s" "R' = goto L355 R"
      by (auto simp: step_def)
    from wok show ?thesis
      apply (cases rule: writer_cases)
      using False inv at c0 unfolding *
               apply (simp_all add: defs)
      done
  qed
qed

lemma reader_step_L351:
  assumes inv: "wr_inv capacity s W R"
    and st: "step capacity s R = Some (s', R')"
    and at: "pc R = L351"
  shows "wr_inv capacity s' W R'"
proof -
  note defs = wr_inv_def fifo_wf_def in_push_def in_pop_try_def in_critical_section_def
    pending_push_def pending_pop_def queued_def wr_simps
  from inv have wok: "pc W = Idle \<or> in_push (pc W)"
    by (simp_all add: wr_inv_def)
  from inv have "ExtractionIndex s < capacity" by (simp add: wr_inv_def fifo_wf_def)
  then have c0: "capacity \<noteq> 0" by auto
  from st at have *: "s' = s\<lparr>DataAvailableEvent := False\<rparr>" "R' = goto L355 R"
    by (auto simp: step_def split: if_splits)
  from wok show ?thesis
    apply (cases rule: writer_cases)
    using inv at c0  unfolding *
             apply (simp_all add: defs)
    done
qed

lemma reader_step_L355:
  assumes inv: "wr_inv capacity s W R"
    and st: "step capacity s R = Some (s', R')"
    and at: "pc R = L355"
  shows "wr_inv capacity s' W R'"
proof -
  note defs = wr_inv_def fifo_wf_def in_push_def in_pop_try_def in_critical_section_def
    pending_push_def pending_pop_def queued_def wr_simps
  from inv have wok: "pc W = Idle \<or> in_push (pc W)"
    by (simp_all add: wr_inv_def)
  from inv have "ExtractionIndex s < capacity" by (simp add: wr_inv_def fifo_wf_def)
  then have c0: "capacity \<noteq> 0" by auto
  from st at have *: "s' = s\<lparr>mutex := False\<rparr>" "R' = return_pop_try FIFO_STATUS_SUCCESS R"
    by (auto simp: step_def split: if_splits)
  from wok show ?thesis
    apply (cases rule: writer_cases)
    using inv at c0  unfolding *
             apply (simp_all add: defs)
    done
qed

lemma reader_step_L344:
  assumes inv: "wr_inv capacity s W R"
    and st: "step capacity s R = Some (s', R')"
    and at: "pc R = L344"
  shows "wr_inv capacity s' W R'"
proof -
  note defs = wr_inv_def fifo_wf_def in_push_def in_pop_try_def in_critical_section_def
    pending_push_def pending_pop_def queued_def wr_simps
  from inv have wok: "pc W = Idle \<or> in_push (pc W)"
    by (simp_all add: wr_inv_def)
  from inv have "ExtractionIndex s < capacity" by (simp add: wr_inv_def fifo_wf_def)
  then have c0: "capacity \<noteq> 0" by auto
  from inv have e: "ExtractionIndex s < capacity" by (simp add: wr_inv_def fifo_wf_def)
  note e1 = unat_succ_mod[OF e] and e2 = succ_mod_less[OF e]
  from e have elt: "unat (ExtractionIndex s) < unat capacity" by (simp add: word_less_nat_alt)
  from inv at have "population s \<noteq> 0" by (simp add: wr_inv_def)
  then have ppos: "0 < unat (population s)" by (simp add: unat_gt_0)
  note shift = live_shift[OF ppos elt, of "items s"]
  have "((unat (ExtractionIndex s) + 1) mod unat capacity + (unat (population s) - 1)) mod unat capacity
        = ((unat (ExtractionIndex s) + 1) + (unat (population s) - 1)) mod unat capacity"
    by (rule mod_add_left_eq)
  also have "(unat (ExtractionIndex s) + 1) + (unat (population s) - 1)
             = unat (ExtractionIndex s) + unat (population s)" using ppos by simp
  finally have ar: "((unat (ExtractionIndex s) + 1) mod unat capacity + (unat (population s) - 1)) mod unat capacity
        = (unat (ExtractionIndex s) + unat (population s)) mod unat capacity" .
  from st at have *: "s' = s\<lparr>ExtractionIndex := (ExtractionIndex s + 1) mod capacity\<rparr>" "R' = goto L345 R"
    by (auto simp: step_def)
  from wok show ?thesis
    apply (cases rule: writer_cases)
    using inv at c0 e1 e2 shift ar unfolding *
             apply (simp_all add: defs)
    done
qed

lemma reader_step_L345:
  assumes inv: "wr_inv capacity s W R"
    and st: "step capacity s R = Some (s', R')"
    and at: "pc R = L345"
  shows "wr_inv capacity s' W R'"
proof -
  note defs = wr_inv_def fifo_wf_def in_push_def in_pop_try_def in_critical_section_def
    pending_push_def pending_pop_def queued_def wr_simps
  from inv have wok: "pc W = Idle \<or> in_push (pc W)"
    by (simp_all add: wr_inv_def)
  from inv have "ExtractionIndex s < capacity" by (simp add: wr_inv_def fifo_wf_def)
  then have c0: "capacity \<noteq> 0" by auto
  from inv at have p: "population s \<noteq> 0" by (simp add: wr_inv_def)
  have p1: "unat (population s - 1) = unat (population s) - 1" using p by (rule unat_pred)
  from inv have "population s \<le> capacity" by (simp add: wr_inv_def)
  then have p2: "population s - 1 \<le> capacity"
    using p1 by (simp add: word_le_nat_alt)
  from st at have *: "s' = s\<lparr>population := population s - 1\<rparr>" "R' = goto L348 R"
    by (auto simp: step_def)
  from wok show ?thesis
    apply (cases rule: writer_cases)
    using inv at c0 p1 p2 unfolding *
             apply (simp_all add: defs)
    done
qed

lemma writer_step:
  assumes inv: "wr_inv capacity s W R"
    and st: "step capacity s W = Some (s', W')"
  shows "wr_inv capacity s' W' R"
proof -
  from inv have "pc W = Idle \<or> in_push (pc W)" by (simp add: wr_inv_def)
  moreover have "pc W \<noteq> Idle" using st by (auto simp: step_def)
  ultimately consider "pc W = L282" | "pc W = L287" | "pc W = L295" | "pc W = L298"
    | "pc W = L306" | "pc W = L308" | "pc W = L309" | "pc W = L312" | "pc W = L315"
    by (auto simp: in_push_def)
  then show ?thesis
    using inv st
    by cases (rule writer_step_L282 writer_step_L287 writer_step_L295 writer_step_L298
        writer_step_L306 writer_step_L308 writer_step_L309 writer_step_L312 writer_step_L315;
        assumption)+
qed

lemma reader_step:
  assumes inv: "wr_inv capacity s W R"
    and st: "step capacity s R = Some (s', R')"
  shows "wr_inv capacity s' W R'"
proof -
  from inv have "pc R = Idle \<or> in_pop_try (pc R)" by (simp add: wr_inv_def)
  moreover have "pc R \<noteq> Idle" using st by (auto simp: step_def)
  ultimately consider "pc R = L333" | "pc R = L339" | "pc R = L342" | "pc R = L344"
    | "pc R = L345" | "pc R = L348" | "pc R = L351" | "pc R = L355"
    by (auto simp: in_pop_try_def)
  then show ?thesis
    using inv st
    by cases (rule reader_step_L333 reader_step_L339 reader_step_L342 reader_step_L344
        reader_step_L345 reader_step_L348 reader_step_L351 reader_step_L355;
        assumption)+
qed

lemma writer_call:
  assumes inv: "wr_inv capacity s W R" and c: "invoke (Push x) W = Some W'"
  shows "wr_inv capacity s W' R"
proof -
  from c have i: "pc W = Idle" and *: "W' = W\<lparr>pc := L282, push_item := x\<rparr>"
    by (auto simp: invoke_def split: if_splits)
  from inv have rok: "pc R = Idle \<or> in_pop_try (pc R)" by (simp add: wr_inv_def)
  from rok show ?thesis
    apply (cases rule: reader_cases)
    using inv i unfolding *
            apply (simp_all add: wr_inv_def fifo_wf_def in_push_def in_pop_try_def
        in_critical_section_def pending_push_def pending_pop_def queued_def)
    done
qed

lemma reader_call:
  assumes inv: "wr_inv capacity s W R" and c: "invoke Pop_try R = Some R'"
  shows "wr_inv capacity s W R'"
proof -
  from c have i: "pc R = Idle" and *: "R' = R\<lparr>pc := L333\<rparr>"
    by (auto simp: invoke_def split: if_splits)
  from inv have wok: "pc W = Idle \<or> in_push (pc W)" by (simp add: wr_inv_def)
  from wok show ?thesis
    apply (cases rule: writer_cases)
    using inv i unfolding *
             apply (simp_all add: wr_inv_def fifo_wf_def in_push_def in_pop_try_def
        in_critical_section_def pending_push_def pending_pop_def queued_def)
    done
qed

lemma wr_inv_ctor:
  assumes "0 < capacity" and "length junk = unat capacity"
  shows "wr_inv capacity (Fifo_ctor junk) (idle_thread u) (idle_thread v)"
  using assms
  by (simp add: wr_inv_def Fifo_ctor_def idle_thread_def fifo_wf_def in_critical_section_def
      pending_push_def pending_pop_def queued_def live_slots_def)

lemma wr_schedule:
  "list_all writer_reader acts \<Longrightarrow> wr_inv capacity s W R \<Longrightarrow>
   schedule capacity acts (s, [W, R]) = Some (s', ths') \<Longrightarrow>
   \<exists>W' R'. ths' = [W', R'] \<and> wr_inv capacity s' W' R'"
proof (induction acts arbitrary: s W R)
  case Nil
  then show ?case by auto
next
  case (Cons a acts)
  from Cons.prems(3) obtain cfg where
    a: "act capacity a (s, [W, R]) = Some cfg"
    and r: "schedule capacity acts cfg = Some (s', ths')"
    by (auto split: option.splits)
  from Cons.prems(1) have wa: "writer_reader a" and rest: "list_all writer_reader acts" by simp_all
  have "\<exists>s1 W1 R1. cfg = (s1, [W1, R1]) \<and> wr_inv capacity s1 W1 R1"
  proof (cases a)
    case (Call t c)
    show ?thesis
    proof (cases c)
      case (Push x)
      with wa Call have t: "t = 0" by simp
      with a Call Push obtain W1 where "invoke (Push x) W = Some W1" "cfg = (s, [W1, R])"
        by (auto split: option.splits)
      with writer_call[OF Cons.prems(2)] show ?thesis by blast
    next
      case Pop_try
      with wa Call have t: "t = 1" by simp
      with a Call Pop_try obtain R1 where "invoke Pop_try R = Some R1" "cfg = (s, [W, R1])"
        by (auto split: option.splits)
      with reader_call[OF Cons.prems(2)] show ?thesis by blast
    next
      case Pop
      with wa Call show ?thesis by simp
    qed
  next
    case (Step t)
    with wa consider "t = 0" | "t = 1" by (auto simp: less_2_cases_iff)
    then show ?thesis
    proof cases
      case 1
      with a Step obtain s1 W1 where "step capacity s W = Some (s1, W1)" "cfg = (s1, [W1, R])"
        by (auto split: option.splits)
      with writer_step[OF Cons.prems(2)] show ?thesis by blast
    next
      case 2
      with a Step obtain s1 R1 where "step capacity s R = Some (s1, R1)" "cfg = (s1, [W, R1])"
        by (auto split: option.splits)
      with reader_step[OF Cons.prems(2)] show ?thesis by blast
    qed
  qed
  then obtain s1 W1 R1 where cfg: "cfg = (s1, [W1, R1])" and inv1: "wr_inv capacity s1 W1 R1"
    by blast
  from Cons.IH[OF rest inv1 r[unfolded cfg]] show ?case .
qed


section \<open>What holds when no blocking \<open>pop\<close> overlaps a \<open>push\<close>\<close>

lemma wr_quiescent:
  assumes "wr_inv capacity s W R" and "pc W = Idle" and "pc R = Idle"
  shows "pushed_values (results W) = popped_values (results R) @ queue_contents capacity s"
  using assms by (simp add: wr_inv_def pending_push_def pending_pop_def queued_def queue_contents_live)

text \<open>
  The order of the items in two settings. First, for every sequence of \<open>push\<close>,
  \<open>pop_try\<close> and \<open>pop\<close> calls issued one after the other on a freshly constructed
  queue, the items given back by the successful pops, followed by the items still
  queued, are exactly the items of the successful pushes in the order they were pushed.
  Second, when one writer thread calls \<open>push\<close> and the reader thread calls only
  \<open>pop_try\<close>, with their statements interleaved in any order, the items returned by the
  successful pops are always an initial segment of the successfully pushed items. Neither
  setting contains a blocking \<open>pop\<close> that overlaps a \<open>push\<close>.
\<close>

lemma fifo_order_no_overlapping_pop:
  assumes "0 < capacity" and "length junk = unat capacity"
  shows "(run capacity cs v (Fifo_ctor junk) = Some (tr, v', s') \<longrightarrow>
            pushed_values tr = popped_values tr @ queue_contents capacity s') \<and>
         (list_all writer_reader acts \<and>
          schedule capacity acts (Fifo_ctor junk, [idle_thread u, idle_thread w]) = Some (s'', [W, R]) \<longrightarrow>
            prefix (popped_values (results R)) (pushed_values (results W) @ pending_push W) \<and>
            (pc W = Idle \<and> pc R = Idle \<longrightarrow>
               pushed_values (results W) = popped_values (results R) @ queue_contents capacity s''))"
proof -
  have part1: "run capacity cs v (Fifo_ctor junk) = Some (tr, v', s') \<longrightarrow>
            pushed_values tr = popped_values tr @ queue_contents capacity s'"
  proof
    assume r: "run capacity cs v (Fifo_ctor junk) = Some (tr, v', s')"
    have "fifo_inv capacity (Fifo_ctor junk)" using assms by (rule fifo_inv_ctor)
    from run_inv[OF this r]
    show "pushed_values tr = popped_values tr @ queue_contents capacity s'"
      by (simp add: queue_contents_ctor)
  qed
  have part2: "list_all writer_reader acts \<and>
          schedule capacity acts (Fifo_ctor junk, [idle_thread u, idle_thread w]) = Some (s'', [W, R]) \<longrightarrow>
            prefix (popped_values (results R)) (pushed_values (results W) @ pending_push W) \<and>
            (pc W = Idle \<and> pc R = Idle \<longrightarrow>
               pushed_values (results W) = popped_values (results R) @ queue_contents capacity s'')"
  proof
    assume a: "list_all writer_reader acts \<and>
          schedule capacity acts (Fifo_ctor junk, [idle_thread u, idle_thread w]) = Some (s'', [W, R])"
    have "wr_inv capacity (Fifo_ctor junk) (idle_thread u) (idle_thread w)"
      using assms by (rule wr_inv_ctor)
    with a wr_schedule[of acts capacity "Fifo_ctor junk" "idle_thread u" "idle_thread w" s'' "[W, R]"]
    have inv: "wr_inv capacity s'' W R" by simp
    then have "pushed_values (results W) @ pending_push W =
       popped_values (results R) @ pending_pop R @
       live_slots (unat capacity) (items s'') (unat (ExtractionIndex s'')) (queued s'' R)"
      by (simp add: wr_inv_def)
    then have "prefix (popped_values (results R)) (pushed_values (results W) @ pending_push W)"
      by simp
    moreover from inv have "pc W = Idle \<and> pc R = Idle \<longrightarrow>
               pushed_values (results W) = popped_values (results R) @ queue_contents capacity s''"
      by (simp add: wr_quiescent)
    ultimately show "prefix (popped_values (results R)) (pushed_values (results W) @ pending_push W) \<and>
            (pc W = Idle \<and> pc R = Idle \<longrightarrow>
               pushed_values (results W) = popped_values (results R) @ queue_contents capacity s'')"
      by (rule conjI)
  qed
  from part1 part2 show ?thesis by (rule conjI)
qed

lemma fifo_order_no_overlapping_pop_example:
  "(0::unsigned) < 5 \<and> length [0, 0, 0, 0, 0::int] = unat (5::unsigned) \<and>
   run 5 [Pop_try, Push 7, Push 8, Pop_try, Push 9, Push 10, Push 11, Push 12, Push 13,
          Pop_try, Pop_try, Pop] (- 1) (Fifo_ctor [0, 0, 0, 0, 0::int])
     = Some ([Pop_try_returned FIFO_STATUS_EMPTY (- 1),
              Push_returned 7 FIFO_STATUS_SUCCESS, Push_returned 8 FIFO_STATUS_SUCCESS,
              Pop_try_returned FIFO_STATUS_SUCCESS 7,
              Push_returned 9 FIFO_STATUS_SUCCESS, Push_returned 10 FIFO_STATUS_SUCCESS,
              Push_returned 11 FIFO_STATUS_SUCCESS, Push_returned 12 FIFO_STATUS_SUCCESS,
              Push_returned 13 FIFO_STATUS_FULL,
              Pop_try_returned FIFO_STATUS_SUCCESS 8, Pop_try_returned FIFO_STATUS_SUCCESS 9,
              Pop_returned 10],
             10,
             \<lparr>DataAvailableEvent = True, mutex = False, items = [12, 8, 9, 10, 11],
              InsertionIndex = 1, ExtractionIndex = 4, population = 2\<rparr>) \<and>
   [7, 8, 9, 10, 11, 12::int]
     = [7, 8, 9, 10] @
       queue_contents 5 \<lparr>DataAvailableEvent = True, mutex = False, items = [12, 8, 9, 10, 11],
                          InsertionIndex = 1, ExtractionIndex = 4, population = 2\<rparr> \<and>
   list_all writer_reader
     [Call 0 (Push 7), Step 0, Step 0, Step 0, Step 0, Step 0, Step 0, Step 0,
      Call 1 Pop_try, Step 1, Step 1, Step 1, Step 1, Step 1, Step 1, Step 1, Step 1,
      Step 0, Call 0 (Push (8::int)), Step 0, Step 0, Step 0, Step 0] \<and>
   schedule 5
     [Call 0 (Push 7), Step 0, Step 0, Step 0, Step 0, Step 0, Step 0, Step 0,
      Call 1 Pop_try, Step 1, Step 1, Step 1, Step 1, Step 1, Step 1, Step 1, Step 1,
      Step 0, Call 0 (Push 8), Step 0, Step 0, Step 0, Step 0]
     (Fifo_ctor [0, 0, 0, 0, 0::int], [idle_thread 0, idle_thread (- 1)])
   = Some (\<lparr>DataAvailableEvent = True, mutex = True, items = [7, 8, 0, 0, 0],
            InsertionIndex = 1, ExtractionIndex = 1, population = 0\<rparr>,
           [\<lparr>pc = L308, push_item = 8, pop_item = 0,
             results = [Push_returned 7 FIFO_STATUS_SUCCESS]\<rparr>,
            \<lparr>pc = Idle, push_item = - 1, pop_item = 7,
             results = [Pop_try_returned FIFO_STATUS_SUCCESS 7]\<rparr>]) \<and>
   prefix [7] [7::int]"
proof -
  let ?cs = "[Pop_try, Push 7, Push 8, Pop_try, Push 9, Push 10, Push 11, Push 12, Push 13,
          Pop_try, Pop_try, Pop :: int call]"
  let ?tr = "[Pop_try_returned FIFO_STATUS_EMPTY (- 1),
              Push_returned 7 FIFO_STATUS_SUCCESS, Push_returned 8 FIFO_STATUS_SUCCESS,
              Pop_try_returned FIFO_STATUS_SUCCESS 7,
              Push_returned 9 FIFO_STATUS_SUCCESS, Push_returned 10 FIFO_STATUS_SUCCESS,
              Push_returned 11 FIFO_STATUS_SUCCESS, Push_returned 12 FIFO_STATUS_SUCCESS,
              Push_returned 13 FIFO_STATUS_FULL,
              Pop_try_returned FIFO_STATUS_SUCCESS 8, Pop_try_returned FIFO_STATUS_SUCCESS 9,
              Pop_returned (10::int)]"
  let ?s' = "\<lparr>DataAvailableEvent = True, mutex = False, items = [12, 8, 9, 10, 11::int],
              InsertionIndex = 1, ExtractionIndex = 4, population = 2\<rparr>"
  let ?acts = "[Call 0 (Push 7), Step 0, Step 0, Step 0, Step 0, Step 0, Step 0, Step 0,
      Call 1 Pop_try, Step 1, Step 1, Step 1, Step 1, Step 1, Step 1, Step 1, Step 1,
      Step 0, Call 0 (Push (8::int)), Step 0, Step 0, Step 0, Step 0]"
  let ?s'' = "\<lparr>DataAvailableEvent = True, mutex = True, items = [7, 8, 0, 0, 0::int],
            InsertionIndex = 1, ExtractionIndex = 1, population = 0\<rparr>"
  let ?W = "\<lparr>pc = L308, push_item = 8::int, pop_item = 0,
             results = [Push_returned 7 FIFO_STATUS_SUCCESS]\<rparr>"
  let ?R = "\<lparr>pc = Idle, push_item = - 1::int, pop_item = 7,
             results = [Pop_try_returned FIFO_STATUS_SUCCESS 7]\<rparr>"
  have h1: "(0::unsigned) < 5" by simp
  have h2: "length [0, 0, 0, 0, 0::int] = unat (5::unsigned)" by simp
  have h3: "run 5 ?cs (- 1) (Fifo_ctor [0, 0, 0, 0, 0::int]) = Some (?tr, 10, ?s')"
    by code_simp
  have h4: "list_all writer_reader ?acts" by simp
  have h5: "schedule 5 ?acts (Fifo_ctor [0, 0, 0, 0, 0::int], [idle_thread 0, idle_thread (- 1)])
              = Some (?s'', [?W, ?R])"
    by code_simp
  from fifo_order_no_overlapping_pop[OF h1 h2, of ?cs "- 1" ?tr 10 ?s' ?acts 0 "- 1" ?s'' ?W ?R] h1 h2 h3 h4 h5
  show ?thesis by (simp add: pending_push_def)
qed

text \<open>
  The population in the same two settings: it is at most the capacity and has not
  wrapped around below 0.
\<close>

lemma population_bounds_no_overlapping_pop:
  assumes "0 < capacity" and "length junk = unat capacity"
  shows "(run capacity cs v (Fifo_ctor junk) = Some (tr, v', s') \<longrightarrow>
            population s' \<le> capacity \<and> unat (population s') \<le> unat capacity \<and>
            unat (population s') + length (popped_values tr) = length (pushed_values tr)) \<and>
         (list_all writer_reader acts \<and>
          schedule capacity acts (Fifo_ctor junk, [idle_thread u, idle_thread w]) = Some (s'', [W, R]) \<longrightarrow>
            population s'' \<le> capacity \<and> unat (population s'') \<le> unat capacity \<and>
            (pc W = Idle \<and> pc R = Idle \<longrightarrow>
               unat (population s'') + length (popped_values (results R))
                 = length (pushed_values (results W))))"
proof -
  have part1: "run capacity cs v (Fifo_ctor junk) = Some (tr, v', s') \<longrightarrow>
            population s' \<le> capacity \<and> unat (population s') \<le> unat capacity \<and>
            unat (population s') + length (popped_values tr) = length (pushed_values tr)"
  proof
    assume r: "run capacity cs v (Fifo_ctor junk) = Some (tr, v', s')"
    have "fifo_inv capacity (Fifo_ctor junk)" using assms by (rule fifo_inv_ctor)
    from run_inv[OF this r]
    have inv: "fifo_inv capacity s'"
      and eq: "pushed_values tr = popped_values tr @ queue_contents capacity s'"
      by (simp_all add: queue_contents_ctor)
    from inv have le: "population s' \<le> capacity" by (simp add: fifo_inv_def)
    then have "unat (population s') \<le> unat capacity" by (simp add: word_le_nat_alt)
    moreover have "unat (population s') + length (popped_values tr) = length (pushed_values tr)"
      using arg_cong[OF eq, of length] by (simp add: length_queue_contents)
    ultimately show "population s' \<le> capacity \<and> unat (population s') \<le> unat capacity \<and>
            unat (population s') + length (popped_values tr) = length (pushed_values tr)"
      using le by simp
  qed
  have part2: "list_all writer_reader acts \<and>
          schedule capacity acts (Fifo_ctor junk, [idle_thread u, idle_thread w]) = Some (s'', [W, R]) \<longrightarrow>
            population s'' \<le> capacity \<and> unat (population s'') \<le> unat capacity \<and>
            (pc W = Idle \<and> pc R = Idle \<longrightarrow>
               unat (population s'') + length (popped_values (results R))
                 = length (pushed_values (results W)))"
  proof
    assume a: "list_all writer_reader acts \<and>
          schedule capacity acts (Fifo_ctor junk, [idle_thread u, idle_thread w]) = Some (s'', [W, R])"
    have "wr_inv capacity (Fifo_ctor junk) (idle_thread u) (idle_thread w)"
      using assms by (rule wr_inv_ctor)
    with a wr_schedule[of acts capacity "Fifo_ctor junk" "idle_thread u" "idle_thread w" s'' "[W, R]"]
    have inv: "wr_inv capacity s'' W R" by simp
    then have le: "population s'' \<le> capacity" by (simp add: wr_inv_def)
    then have le': "unat (population s'') \<le> unat capacity" by (simp add: word_le_nat_alt)
    have "pc W = Idle \<and> pc R = Idle \<longrightarrow>
               unat (population s'') + length (popped_values (results R))
                 = length (pushed_values (results W))"
    proof
      assume "pc W = Idle \<and> pc R = Idle"
      with wr_quiescent[OF inv]
      have "pushed_values (results W) = popped_values (results R) @ queue_contents capacity s''"
        by simp
      from arg_cong[OF this, of length]
      show "unat (population s'') + length (popped_values (results R))
                 = length (pushed_values (results W))"
        by (simp add: length_queue_contents)
    qed
    with le le' show "population s'' \<le> capacity \<and> unat (population s'') \<le> unat capacity \<and>
            (pc W = Idle \<and> pc R = Idle \<longrightarrow>
               unat (population s'') + length (popped_values (results R))
                 = length (pushed_values (results W)))"
      by simp
  qed
  from part1 part2 show ?thesis by (rule conjI)
qed

lemma population_bounds_no_overlapping_pop_example:
  "(0::unsigned) < 5 \<and> length [0, 0, 0, 0, 0::int] = unat (5::unsigned) \<and>
   run 5 [Push 9, Push 10, Push 11, Push 12, Push 13, Push 14, Pop_try, Pop, Pop, Pop, Pop, Pop_try]
       0 (Fifo_ctor [0, 0, 0, 0, 0::int])
     = Some ([Push_returned 9 FIFO_STATUS_SUCCESS, Push_returned 10 FIFO_STATUS_SUCCESS,
              Push_returned 11 FIFO_STATUS_SUCCESS, Push_returned 12 FIFO_STATUS_SUCCESS,
              Push_returned 13 FIFO_STATUS_SUCCESS, Push_returned 14 FIFO_STATUS_FULL,
              Pop_try_returned FIFO_STATUS_SUCCESS 9, Pop_returned 10, Pop_returned 11,
              Pop_returned 12, Pop_returned 13, Pop_try_returned FIFO_STATUS_EMPTY 13],
             13,
             \<lparr>DataAvailableEvent = False, mutex = False, items = [9, 10, 11, 12, 13],
              InsertionIndex = 0, ExtractionIndex = 0, population = 0\<rparr>) \<and>
   list_all writer_reader
     [Call 0 (Push 7), Step 0, Step 0, Step 0, Step 0, Step 0, Step 0, Step 0,
      Call 1 Pop_try, Step 1, Step 1, Step 1, Step 1, Step 1, Step 1, Step 1, Step 1,
      Step 0, Call 1 Pop_try, Step (1::nat)] \<and>
   schedule 5
     [Call 0 (Push 7), Step 0, Step 0, Step 0, Step 0, Step 0, Step 0, Step 0,
      Call 1 Pop_try, Step 1, Step 1, Step 1, Step 1, Step 1, Step 1, Step 1, Step 1,
      Step 0, Call 1 Pop_try, Step 1]
     (Fifo_ctor [0, 0, 0, 0, 0::int], [idle_thread 0, idle_thread (- 1)])
   = Some (\<lparr>DataAvailableEvent = True, mutex = False, items = [7, 0, 0, 0, 0],
            InsertionIndex = 1, ExtractionIndex = 1, population = 0\<rparr>,
           [\<lparr>pc = Idle, push_item = 7, pop_item = 0,
             results = [Push_returned 7 FIFO_STATUS_SUCCESS]\<rparr>,
            \<lparr>pc = Idle, push_item = - 1, pop_item = 7,
             results = [Pop_try_returned FIFO_STATUS_SUCCESS 7,
                        Pop_try_returned FIFO_STATUS_EMPTY 7]\<rparr>]) \<and>
   (0::unsigned) \<le> 5 \<and> unat (0::unsigned) + 5 = (5::nat) \<and> unat (0::unsigned) + 1 = (1::nat)"
proof -
  let ?cs = "[Push 9, Push 10, Push 11, Push 12, Push 13, Push 14, Pop_try, Pop, Pop, Pop, Pop,
              Pop_try :: int call]"
  let ?tr = "[Push_returned 9 FIFO_STATUS_SUCCESS, Push_returned 10 FIFO_STATUS_SUCCESS,
              Push_returned 11 FIFO_STATUS_SUCCESS, Push_returned 12 FIFO_STATUS_SUCCESS,
              Push_returned 13 FIFO_STATUS_SUCCESS, Push_returned 14 FIFO_STATUS_FULL,
              Pop_try_returned FIFO_STATUS_SUCCESS 9, Pop_returned 10, Pop_returned 11,
              Pop_returned 12, Pop_returned 13, Pop_try_returned FIFO_STATUS_EMPTY (13::int)]"
  let ?s' = "\<lparr>DataAvailableEvent = False, mutex = False, items = [9, 10, 11, 12, 13::int],
              InsertionIndex = 0, ExtractionIndex = 0, population = 0\<rparr>"
  let ?acts = "[Call 0 (Push 7), Step 0, Step 0, Step 0, Step 0, Step 0, Step 0, Step 0,
      Call 1 Pop_try, Step 1, Step 1, Step 1, Step 1, Step 1, Step 1, Step 1, Step 1,
      Step 0, Call 1 Pop_try, Step 1 :: int action]"
  let ?s'' = "\<lparr>DataAvailableEvent = True, mutex = False, items = [7, 0, 0, 0, 0::int],
            InsertionIndex = 1, ExtractionIndex = 1, population = 0\<rparr>"
  let ?W = "\<lparr>pc = Idle, push_item = 7::int, pop_item = 0,
             results = [Push_returned 7 FIFO_STATUS_SUCCESS]\<rparr>"
  let ?R = "\<lparr>pc = Idle, push_item = - 1::int, pop_item = 7,
             results = [Pop_try_returned FIFO_STATUS_SUCCESS 7,
                        Pop_try_returned FIFO_STATUS_EMPTY 7]\<rparr>"
  have h1: "(0::unsigned) < 5" by simp
  have h2: "length [0, 0, 0, 0, 0::int] = unat (5::unsigned)" by simp
  have h3: "run 5 ?cs 0 (Fifo_ctor [0, 0, 0, 0, 0::int]) = Some (?tr, 13, ?s')"
    by code_simp
  have h4: "list_all writer_reader ?acts" by simp
  have h5: "schedule 5 ?acts (Fifo_ctor [0, 0, 0, 0, 0::int], [idle_thread 0, idle_thread (- 1)])
              = Some (?s'', [?W, ?R])"
    by code_simp
  from population_bounds_no_overlapping_pop[OF h1 h2, of ?cs 0 ?tr 13 ?s' ?acts 0 "- 1" ?s'' ?W ?R] h1 h2 h3 h4 h5
  show ?thesis by simp
qed

section \<open>Claims about the order of the items and about the population\<close>

text \<open>
  C1. The claim (the successful pops return exactly the successfully pushed items, in
  push order, for a single reader and serialized pushes) fails on the code. One writer
  thread (0) and the single reader (1) on a fresh queue of capacity 5: the writer calls
  \<open>push(7)\<close> and is pre-empted after \<open>LeaveCriticalSection\<close> (line 312), before
  \<open>SetEvent\<close> (line 315); the reader calls \<open>pop\<close>, which returns 7, brings the
  population to 0 and resets the event; the writer resumes and sets the event; the
  reader calls \<open>pop\<close> again, the wait of line 373 returns at once and line 383 reads
  the slot \<open>items[1]\<close>, which was never written. The reader has received 7 and 0, and
  only 7 was pushed.
\<close>

theorem pop_returns_item_never_pushed:
  "schedule 5
     [Call 0 (Push 7), Step 0, Step 0, Step 0, Step 0, Step 0, Step 0, Step 0,
      Call 1 Pop, Step 1, Step 1, Step 1, Step 1, Step 1, Step 1, Step 1, Step 1,
      Step 0,
      Call 1 Pop, Step 1, Step 1, Step 1, Step 1, Step 1, Step 1, Step 1, Step 1]
     (Fifo_ctor [0, 0, 0, 0, 0::int], [idle_thread 0, idle_thread (- 1)])
   = Some (\<lparr>DataAvailableEvent = True, mutex = False, items = [7, 0, 0, 0, 0],
            InsertionIndex = 1, ExtractionIndex = 2, population = 4294967295\<rparr>,
           [\<lparr>pc = Idle, push_item = 7, pop_item = 0,
             results = [Push_returned 7 FIFO_STATUS_SUCCESS]\<rparr>,
            \<lparr>pc = Idle, push_item = - 1, pop_item = 0,
             results = [Pop_returned 7, Pop_returned 0]\<rparr>]) \<and>
   pushed_values [Push_returned (7::int) FIFO_STATUS_SUCCESS] = [7] \<and>
   popped_values [Pop_returned (7::int), Pop_returned 0] = [7, 0] \<and>
   \<not> prefix (popped_values [Pop_returned (7::int), Pop_returned 0])
             (pushed_values [Push_returned 7 FIFO_STATUS_SUCCESS])"
proof -
  have "schedule 5
     [Call 0 (Push 7), Step 0, Step 0, Step 0, Step 0, Step 0, Step 0, Step 0,
      Call 1 Pop, Step 1, Step 1, Step 1, Step 1, Step 1, Step 1, Step 1, Step 1,
      Step 0,
      Call 1 Pop, Step 1, Step 1, Step 1, Step 1, Step 1, Step 1, Step 1, Step 1]
     (Fifo_ctor [0, 0, 0, 0, 0::int], [idle_thread 0, idle_thread (- 1)])
   = Some (\<lparr>DataAvailableEvent = True, mutex = False, items = [7, 0, 0, 0, 0],
            InsertionIndex = 1, ExtractionIndex = 2, population = 4294967295\<rparr>,
           [\<lparr>pc = Idle, push_item = 7, pop_item = 0,
             results = [Push_returned 7 FIFO_STATUS_SUCCESS]\<rparr>,
            \<lparr>pc = Idle, push_item = - 1, pop_item = 0,
             results = [Pop_returned 7, Pop_returned 0]\<rparr>])"
    by code_simp
  moreover have "\<not> prefix [7, 0] [7::int]" by simp
  ultimately show ?thesis by simp
qed

text \<open>
  C2. The claim (the population always stays within 0 and the capacity, for every
  sequence of \<open>push\<close>, \<open>pop_try\<close> and \<open>pop\<close> operations from the constructed state) fails
  on the code. One writer thread (0) and the single reader (1) on a fresh queue of
  capacity 5: the writer completes \<open>push(7)\<close>, calls \<open>push(8)\<close> and is pre-empted after
  \<open>LeaveCriticalSection\<close> (line 312), before \<open>SetEvent\<close> (line 315); the reader calls
  \<open>pop_try\<close> twice, which returns 7 and 8, brings the population to 0 and resets the
  event; the writer resumes and sets the event; the reader calls \<open>pop\<close>, the wait of
  line 373 returns at once and \<open>population--\<close> on 0 (line 386) wraps around: the
  population is \<open>2^32 - 1\<close>, above the capacity.
\<close>

theorem population_wraps_below_zero:
  "schedule 5
     [Call 0 (Push 7), Step 0, Step 0, Step 0, Step 0, Step 0, Step 0, Step 0, Step 0,
      Call 0 (Push 8), Step 0, Step 0, Step 0, Step 0, Step 0, Step 0, Step 0,
      Call 1 Pop_try, Step 1, Step 1, Step 1, Step 1, Step 1, Step 1, Step 1,
      Call 1 Pop_try, Step 1, Step 1, Step 1, Step 1, Step 1, Step 1, Step 1, Step 1,
      Step 0,
      Call 1 Pop, Step 1, Step 1, Step 1, Step 1, Step 1, Step 1, Step 1, Step 1]
     (Fifo_ctor [0, 0, 0, 0, 0::int], [idle_thread 0, idle_thread (- 1)])
   = Some (\<lparr>DataAvailableEvent = True, mutex = False, items = [7, 8, 0, 0, 0],
            InsertionIndex = 2, ExtractionIndex = 3, population = 4294967295\<rparr>,
           [\<lparr>pc = Idle, push_item = 8, pop_item = 0,
             results = [Push_returned 7 FIFO_STATUS_SUCCESS,
                        Push_returned 8 FIFO_STATUS_SUCCESS]\<rparr>,
            \<lparr>pc = Idle, push_item = - 1, pop_item = 0,
             results = [Pop_try_returned FIFO_STATUS_SUCCESS 7,
                        Pop_try_returned FIFO_STATUS_SUCCESS 8, Pop_returned 0]\<rparr>]) \<and>
   getPopulation \<lparr>DataAvailableEvent = True, mutex = False, items = [7, 8, 0, 0, 0::int],
                   InsertionIndex = 2, ExtractionIndex = 3, population = 4294967295\<rparr>
     = 4294967295 \<and>
   \<not> getPopulation \<lparr>DataAvailableEvent = True, mutex = False, items = [7, 8, 0, 0, 0::int],
                     InsertionIndex = 2, ExtractionIndex = 3, population = 4294967295\<rparr>
       \<le> 5"
proof -
  have "schedule 5
     [Call 0 (Push 7), Step 0, Step 0, Step 0, Step 0, Step 0, Step 0, Step 0, Step 0,
      Call 0 (Push 8), Step 0, Step 0, Step 0, Step 0, Step 0, Step 0, Step 0,
      Call 1 Pop_try, Step 1, Step 1, Step 1, Step 1, Step 1, Step 1, Step 1,
      Call 1 Pop_try, Step 1, Step 1, Step 1, Step 1, Step 1, Step 1, Step 1, Step 1,
      Step 0,
      Call 1 Pop, Step 1, Step 1, Step 1, Step 1, Step 1, Step 1, Step 1, Step 1]
     (Fifo_ctor [0, 0, 0, 0, 0::int], [idle_thread 0, idle_thread (- 1)])
   = Some (\<lparr>DataAvailableEvent = True, mutex = False, items = [7, 8, 0, 0, 0],
            InsertionIndex = 2, ExtractionIndex = 3, population = 4294967295\<rparr>,
           [\<lparr>pc = Idle, push_item = 8, pop_item = 0,
             results = [Push_returned 7 FIFO_STATUS_SUCCESS,
                        Push_returned 8 FIFO_STATUS_SUCCESS]\<rparr>,
            \<lparr>pc = Idle, push_item = - 1, pop_item = 0,
             results = [Pop_try_returned FIFO_STATUS_SUCCESS 7,
                        Pop_try_returned FIFO_STATUS_SUCCESS 8, Pop_returned 0]\<rparr>])"
    by code_simp
  moreover have "\<not> (4294967295::unsigned) \<le> 5" by (simp add: word_le_nat_alt)
  ultimately show ?thesis by (simp add: getPopulation_def)
qed


section \<open>Claims about the three operations\<close>

text \<open>
  C3. In every state whose population equals the capacity, \<open>push\<close> returns
  \<open>FIFO_STATUS_FULL\<close> and stores nothing: the state is unchanged. In every state whose
  population is 0, \<open>pop_try\<close> returns \<open>FIFO_STATUS_EMPTY\<close> and removes nothing: the
  state and \<open>*itemPtr\<close> are unchanged. Both hold whether or not another thread holds
  the critical section: neither call waits for it (the result of \<open>pop_try\<close> is not
  \<open>None\<close>).
\<close>

theorem full_and_empty_status:
  "(population s = capacity \<longrightarrow> push capacity x s = (FIFO_STATUS_FULL, s)) \<and>
   (population s' = 0 \<longrightarrow> pop_try capacity v s' = Some (FIFO_STATUS_EMPTY, v, s'))"
  by (simp add: push_def pop_try_def)

theorem full_and_empty_status_witness:
  "population \<lparr>DataAvailableEvent = True, mutex = True, items = [9, 10, 11, 12, 13::int],
               InsertionIndex = 0, ExtractionIndex = 0, population = 5\<rparr> = 5 \<and>
   push 5 14 \<lparr>DataAvailableEvent = True, mutex = True, items = [9, 10, 11, 12, 13::int],
               InsertionIndex = 0, ExtractionIndex = 0, population = 5\<rparr>
     = (FIFO_STATUS_FULL,
        \<lparr>DataAvailableEvent = True, mutex = True, items = [9, 10, 11, 12, 13::int],
         InsertionIndex = 0, ExtractionIndex = 0, population = 5\<rparr>) \<and>
   population (Fifo_ctor [0, 0, 0, 0, 0::int]) = 0 \<and>
   pop_try 5 (- 1) (Fifo_ctor [0, 0, 0, 0, 0::int])
     = Some (FIFO_STATUS_EMPTY, - 1, Fifo_ctor [0, 0, 0, 0, 0::int])"
  using full_and_empty_status
    [of "\<lparr>DataAvailableEvent = True, mutex = True, items = [9, 10, 11, 12, 13::int],
          InsertionIndex = 0, ExtractionIndex = 0, population = 5\<rparr>" 5 14
        "Fifo_ctor [0, 0, 0, 0, 0::int]" "- 1"]
  by (simp add: Fifo_ctor_def)



text \<open>
  C4. In every well-formed state in which \<open>push\<close> succeeds, \<open>push\<close> stores the item in
  \<open>items[InsertionIndex]\<close>, sets \<open>InsertionIndex\<close> to \<open>(InsertionIndex + 1) mod capacity\<close>,
  increments the population by 1 (without wrap-around), sets the event and returns
  \<open>FIFO_STATUS_SUCCESS\<close>; nothing else changes. The event is set after the critical
  section is released: after the seven statements up to \<open>LeaveCriticalSection\<close> of line
  312 the thread is at line 315, the critical section is free and the event is still as
  it was at the call; the statement of line 315 then sets the event and the call
  returns.
\<close>

theorem push_success:
  assumes "fifo_wf capacity s" and "push capacity x s = (FIFO_STATUS_SUCCESS, s')"
  shows "s' = s\<lparr>items := (items s)[unat (InsertionIndex s) := x],
                 InsertionIndex := (InsertionIndex s + 1) mod capacity,
                 population := population s + 1,
                 DataAvailableEvent := True\<rparr> \<and>
         items s' ! unat (InsertionIndex s) = x \<and>
         unat (InsertionIndex s') = (unat (InsertionIndex s) + 1) mod unat capacity \<and>
         unat (population s') = unat (population s) + 1 \<and>
         DataAvailableEvent s' \<and>
         (\<exists>s6. steps 7 capacity s (th\<lparr>pc := L282, push_item := x\<rparr>)
                  = Some (s6, th\<lparr>pc := L315, push_item := x\<rparr>) \<and>
               \<not> mutex s6 \<and> DataAvailableEvent s6 = DataAvailableEvent s \<and>
               step capacity s6 (th\<lparr>pc := L315, push_item := x\<rparr>)
                  = Some (s', th\<lparr>pc := Idle, push_item := x,
                                 results := results th @ [Push_returned x FIFO_STATUS_SUCCESS]\<rparr>))"
proof -
  from assms(2) have nf: "\<not> capacity \<le> population s" and nm: "\<not> mutex s"
    by (auto simp: push_def Let_def split: if_splits)
  from nf nm assms(2)
  have s': "s' = s\<lparr>items := (items s)[unat (InsertionIndex s) := x],
                 InsertionIndex := (InsertionIndex s + 1) mod capacity,
                 population := population s + 1,
                 DataAvailableEvent := True\<rparr>"
    by (cases s) (auto simp: push_def Let_def)
  from assms(1) have len: "length (items s) = unat capacity" and i: "InsertionIndex s < capacity"
    by (simp_all add: fifo_wf_def)
  from i have "unat (InsertionIndex s) < length (items s)" using len by (simp add: word_less_nat_alt)
  then have slot: "items s' ! unat (InsertionIndex s) = x" using s' by simp
  have idx: "unat (InsertionIndex s') = (unat (InsertionIndex s) + 1) mod unat capacity"
    using s' unat_succ_mod[OF i] by simp
  from nf have "population s < capacity" by simp
  then have cnt: "unat (population s') = unat (population s) + 1"
    using s' by (simp add: unat_succ_lt)
  let ?s6 = "s\<lparr>items := (items s)[unat (InsertionIndex s) := x],
               InsertionIndex := (InsertionIndex s + 1) mod capacity,
               population := population s + 1\<rparr>"
  have st: "steps 7 capacity s (th\<lparr>pc := L282, push_item := x\<rparr>)
              = Some (?s6, th\<lparr>pc := L315, push_item := x\<rparr>)"
    using nf nm by (simp add: eval_nat_numeral step_def goto_def)
  have last: "step capacity ?s6 (th\<lparr>pc := L315, push_item := x\<rparr>)
                = Some (s', th\<lparr>pc := Idle, push_item := x,
                               results := results th @ [Push_returned x FIFO_STATUS_SUCCESS]\<rparr>)"
    using s' by (simp add: step_def return_push_def)
  have "\<not> mutex ?s6" "DataAvailableEvent ?s6 = DataAvailableEvent s" using nm by simp_all
  with st last have "\<exists>s6. steps 7 capacity s (th\<lparr>pc := L282, push_item := x\<rparr>)
                  = Some (s6, th\<lparr>pc := L315, push_item := x\<rparr>) \<and>
               \<not> mutex s6 \<and> DataAvailableEvent s6 = DataAvailableEvent s \<and>
               step capacity s6 (th\<lparr>pc := L315, push_item := x\<rparr>)
                  = Some (s', th\<lparr>pc := Idle, push_item := x,
                                 results := results th @ [Push_returned x FIFO_STATUS_SUCCESS]\<rparr>)"
    by blast
  with s' slot idx cnt show ?thesis by simp
qed

theorem push_success_witness:
  "fifo_wf 5 \<lparr>DataAvailableEvent = False, mutex = False, items = [7, 8, 9, 10, 11::int],
               InsertionIndex = 4, ExtractionIndex = 4, population = 0\<rparr> \<and>
   push 5 12 \<lparr>DataAvailableEvent = False, mutex = False, items = [7, 8, 9, 10, 11::int],
               InsertionIndex = 4, ExtractionIndex = 4, population = 0\<rparr>
     = (FIFO_STATUS_SUCCESS,
        \<lparr>DataAvailableEvent = True, mutex = False, items = [7, 8, 9, 10, 12],
         InsertionIndex = 0, ExtractionIndex = 4, population = 1\<rparr>) \<and>
   steps 7 5 \<lparr>DataAvailableEvent = False, mutex = False, items = [7, 8, 9, 10, 11::int],
               InsertionIndex = 4, ExtractionIndex = 4, population = 0\<rparr>
           ((idle_thread 0)\<lparr>pc := L282, push_item := 12\<rparr>)
     = Some (\<lparr>DataAvailableEvent = False, mutex = False, items = [7, 8, 9, 10, 12],
              InsertionIndex = 0, ExtractionIndex = 4, population = 1\<rparr>,
             (idle_thread 0)\<lparr>pc := L315, push_item := 12\<rparr>)"
proof -
  let ?s = "\<lparr>DataAvailableEvent = False, mutex = False, items = [7, 8, 9, 10, 11::int],
               InsertionIndex = 4, ExtractionIndex = 4, population = 0\<rparr>"
  let ?s' = "\<lparr>DataAvailableEvent = True, mutex = False, items = [7, 8, 9, 10, 12::int],
               InsertionIndex = 0, ExtractionIndex = 4, population = 1\<rparr>"
  have h1: "fifo_wf 5 ?s" by (simp add: fifo_wf_def)
  have h2: "push 5 12 ?s = (FIFO_STATUS_SUCCESS, ?s')" by code_simp
  have h3: "steps 7 5 ?s ((idle_thread 0)\<lparr>pc := L282, push_item := 12\<rparr>)
     = Some (\<lparr>DataAvailableEvent = False, mutex = False, items = [7, 8, 9, 10, 12],
              InsertionIndex = 0, ExtractionIndex = 4, population = 1\<rparr>,
             (idle_thread 0)\<lparr>pc := L315, push_item := 12\<rparr>)"
    by code_simp
  from push_success[OF h1 h2, of "idle_thread 0"] h1 h2 h3 show ?thesis
    by simp
qed


text \<open>
  C5. In every well-formed state with population > 0 whose critical section is free,
  \<open>pop_try\<close> returns \<open>FIFO_STATUS_SUCCESS\<close> with \<open>*itemPtr = items[ExtractionIndex]\<close>,
  sets \<open>ExtractionIndex\<close> to \<open>(ExtractionIndex + 1) mod capacity\<close>, decrements the
  population by 1 (without wrap-around), resets the event exactly when the new population
  is 0 and leaves it as it was otherwise, and changes nothing else.
\<close>

theorem pop_try_success:
  assumes "fifo_wf capacity s" and "population s \<noteq> 0" and "\<not> mutex s"
  shows "pop_try capacity v s =
           Some (FIFO_STATUS_SUCCESS, items s ! unat (ExtractionIndex s),
                 s\<lparr>ExtractionIndex := (ExtractionIndex s + 1) mod capacity,
                   population := population s - 1,
                   DataAvailableEvent := (if population s - 1 = 0 then False else DataAvailableEvent s)\<rparr>) \<and>
         unat ((ExtractionIndex s + 1) mod capacity) = (unat (ExtractionIndex s) + 1) mod unat capacity \<and>
         unat (population s - 1) + 1 = unat (population s)"
proof -
  from assms(1) have "ExtractionIndex s < capacity" by (simp add: fifo_wf_def)
  then have e: "unat ((ExtractionIndex s + 1) mod capacity) = (unat (ExtractionIndex s) + 1) mod unat capacity"
    by (rule unat_succ_mod)
  from assms(2) have "0 < unat (population s)" by (simp add: unat_gt_0)
  with unat_pred[OF assms(2)] have p: "unat (population s - 1) + 1 = unat (population s)" by simp
  have "pop_try capacity v s =
           Some (FIFO_STATUS_SUCCESS, items s ! unat (ExtractionIndex s),
                 s\<lparr>ExtractionIndex := (ExtractionIndex s + 1) mod capacity,
                   population := population s - 1,
                   DataAvailableEvent := (if population s - 1 = 0 then False else DataAvailableEvent s)\<rparr>)"
    using assms(2,3) by (simp add: pop_try_def Let_def)
  with e p show ?thesis by simp
qed

theorem pop_try_success_witness:
  "fifo_wf 5 \<lparr>DataAvailableEvent = True, mutex = False, items = [7, 8, 0, 0, 0::int],
               InsertionIndex = 2, ExtractionIndex = 1, population = 1\<rparr> \<and>
   pop_try 5 1000 \<lparr>DataAvailableEvent = True, mutex = False, items = [7, 8, 0, 0, 0::int],
                    InsertionIndex = 2, ExtractionIndex = 1, population = 1\<rparr>
     = Some (FIFO_STATUS_SUCCESS, 8,
             \<lparr>DataAvailableEvent = False, mutex = False, items = [7, 8, 0, 0, 0::int],
              InsertionIndex = 2, ExtractionIndex = 2, population = 0\<rparr>)"
proof -
  let ?s = "\<lparr>DataAvailableEvent = True, mutex = False, items = [7, 8, 0, 0, 0::int],
               InsertionIndex = 2, ExtractionIndex = 1, population = 1\<rparr>"
  have h1: "fifo_wf 5 ?s" by (simp add: fifo_wf_def)
  have h2: "population ?s \<noteq> 0" by simp
  have h3: "\<not> mutex ?s" by simp
  from pop_try_success[OF h1 h2 h3, of 1000] h1 show ?thesis by simp
qed



text \<open>
  C6. The claim as stated fails whenever the queue is not empty before the push: after
  \<open>push 7\<close> on a fresh queue of capacity 5, \<open>push 8\<close> succeeds and the next pop gives 7,
  not 8.
\<close>

theorem roundtrip_counterexample:
  "run 5 [Push 7] 0 (Fifo_ctor [0, 0, 0, 0, 0::int])
     = Some ([Push_returned 7 FIFO_STATUS_SUCCESS], 0,
             \<lparr>DataAvailableEvent = True, mutex = False, items = [7, 0, 0, 0, 0],
              InsertionIndex = 1, ExtractionIndex = 0, population = 1\<rparr>) \<and>
   push 5 8 \<lparr>DataAvailableEvent = True, mutex = False, items = [7, 0, 0, 0, 0::int],
              InsertionIndex = 1, ExtractionIndex = 0, population = 1\<rparr>
     = (FIFO_STATUS_SUCCESS,
        \<lparr>DataAvailableEvent = True, mutex = False, items = [7, 8, 0, 0, 0],
         InsertionIndex = 2, ExtractionIndex = 0, population = 2\<rparr>) \<and>
   pop_try 5 0 \<lparr>DataAvailableEvent = True, mutex = False, items = [7, 8, 0, 0, 0::int],
                 InsertionIndex = 2, ExtractionIndex = 0, population = 2\<rparr>
     = Some (FIFO_STATUS_SUCCESS, 7,
             \<lparr>DataAvailableEvent = True, mutex = False, items = [7, 8, 0, 0, 0],
              InsertionIndex = 2, ExtractionIndex = 1, population = 1\<rparr>) \<and>
   pop 5 0 \<lparr>DataAvailableEvent = True, mutex = False, items = [7, 8, 0, 0, 0::int],
             InsertionIndex = 2, ExtractionIndex = 0, population = 2\<rparr>
     = Some (7,
             \<lparr>DataAvailableEvent = True, mutex = False, items = [7, 8, 0, 0, 0],
              InsertionIndex = 2, ExtractionIndex = 1, population = 1\<rparr>) \<and>
   (7::int) \<noteq> 8"
  by code_simp

text \<open>
  C6, amended. In every state reached by calls issued one after the other from the
  constructed state, if \<open>push\<close> of X succeeds then the next pop (\<open>pop_try\<close> or \<open>pop\<close>)
  returns the oldest queued item, which is X exactly when the queue was empty before
  the push, and the population after the pop equals its value before the push.
\<close>

theorem roundtrip_amended:
  assumes "0 < capacity" and "length junk = unat capacity"
    and "run capacity cs v0 (Fifo_ctor junk) = Some (tr, v, s)"
    and "push capacity x s = (FIFO_STATUS_SUCCESS, s1)"
  shows "\<exists>y s2. pop_try capacity v s1 = Some (FIFO_STATUS_SUCCESS, y, s2) \<and>
                 pop capacity v s1 = Some (y, s2) \<and>
                 y = hd (queue_contents capacity s @ [x]) \<and>
                 (population s = 0 \<longrightarrow> y = x) \<and>
                 population s2 = population s"
proof -
  have "fifo_inv capacity (Fifo_ctor junk)" using assms(1,2) by (rule fifo_inv_ctor)
  from run_inv[OF this assms(3)] have inv: "fifo_inv capacity s" by simp
  have nf: "population s < capacity"
  proof (rule ccontr)
    assume "\<not> population s < capacity"
    then have "capacity \<le> population s" by simp
    from push_full[OF this, of x] assms(4) show False by simp
  qed
  from push_inv[OF inv nf, of x] assms(4)
  have inv1: "fifo_inv capacity s1"
    and q1: "queue_contents capacity s1 = queue_contents capacity s @ [x]" by auto
  have ne: "population s1 \<noteq> 0"
  proof
    assume "population s1 = 0"
    then have "queue_contents capacity s1 = []" by (simp add: queue_contents_def)
    with q1 show False by simp
  qed
  from pop_try_inv[OF inv1 ne, of v] obtain y s2 where
    p: "pop_try capacity v s1 = Some (FIFO_STATUS_SUCCESS, y, s2)"
    and q2: "queue_contents capacity s1 = y # queue_contents capacity s2" by blast
  from pop_as_pop_try[OF ne, of capacity v] p have p': "pop capacity v s1 = Some (y, s2)" by simp
  from q1 q2 have eq: "queue_contents capacity s @ [x] = y # queue_contents capacity s2" by simp
  then have y: "y = hd (queue_contents capacity s @ [x])" by simp
  have "population s = 0 \<longrightarrow> y = x"
  proof
    assume "population s = 0"
    then have "queue_contents capacity s = []" by (simp add: queue_contents_def)
    with eq show "y = x" by simp
  qed
  moreover have "population s2 = population s"
  proof -
    from arg_cong[OF eq, of length]
    have "unat (population s2) = unat (population s)" by (simp add: length_queue_contents)
    then show ?thesis by (simp add: word_unat_eq_iff)
  qed
  ultimately show ?thesis using p p' y by blast
qed

theorem roundtrip_amended_witness:
  "(0::unsigned) < 5 \<and> length [0, 0, 0, 0, 0::int] = unat (5::unsigned) \<and>
   run 5 [Push 7, Pop_try] 0 (Fifo_ctor [0, 0, 0, 0, 0::int])
     = Some ([Push_returned 7 FIFO_STATUS_SUCCESS, Pop_try_returned FIFO_STATUS_SUCCESS 7], 7,
             \<lparr>DataAvailableEvent = False, mutex = False, items = [7, 0, 0, 0, 0],
              InsertionIndex = 1, ExtractionIndex = 1, population = 0\<rparr>) \<and>
   push 5 9 \<lparr>DataAvailableEvent = False, mutex = False, items = [7, 0, 0, 0, 0::int],
              InsertionIndex = 1, ExtractionIndex = 1, population = 0\<rparr>
     = (FIFO_STATUS_SUCCESS,
        \<lparr>DataAvailableEvent = True, mutex = False, items = [7, 9, 0, 0, 0],
         InsertionIndex = 2, ExtractionIndex = 1, population = 1\<rparr>) \<and>
   (\<exists>s2. pop_try 5 7 \<lparr>DataAvailableEvent = True, mutex = False, items = [7, 9, 0, 0, 0::int],
                       InsertionIndex = 2, ExtractionIndex = 1, population = 1\<rparr>
            = Some (FIFO_STATUS_SUCCESS, 9, s2) \<and> population s2 = 0)"
proof -
  let ?s = "\<lparr>DataAvailableEvent = False, mutex = False, items = [7, 0, 0, 0, 0::int],
              InsertionIndex = 1, ExtractionIndex = 1, population = 0\<rparr>"
  let ?s1 = "\<lparr>DataAvailableEvent = True, mutex = False, items = [7, 9, 0, 0, 0::int],
              InsertionIndex = 2, ExtractionIndex = 1, population = 1\<rparr>"
  have h1: "(0::unsigned) < 5" by simp
  have h2: "length [0, 0, 0, 0, 0::int] = unat (5::unsigned)" by simp
  have h3: "run 5 [Push 7, Pop_try] 0 (Fifo_ctor [0, 0, 0, 0, 0::int])
     = Some ([Push_returned 7 FIFO_STATUS_SUCCESS, Pop_try_returned FIFO_STATUS_SUCCESS 7], 7, ?s)"
    by code_simp
  have h4: "push 5 9 ?s = (FIFO_STATUS_SUCCESS, ?s1)" by code_simp
  from roundtrip_amended[OF h1 h2 h3 h4] h1 h2 h3 h4 show ?thesis by auto
qed


text \<open>
  C7. In every state with population > 0, \<open>pop\<close> and the success path of \<open>pop_try\<close> do
  the same: when another thread holds the critical section both wait for it, and
  otherwise both return, with the same item in \<open>*itemPtr\<close> and the same resulting state
  (slots, both indices, population, event and critical section).
\<close>

theorem pop_equals_pop_try:
  assumes "population s \<noteq> 0"
  shows "(mutex s \<longrightarrow> pop capacity v s = None \<and> pop_try capacity v s = None) \<and>
         (\<not> mutex s \<longrightarrow>
            (\<exists>v' s'. pop_try capacity v s = Some (FIFO_STATUS_SUCCESS, v', s') \<and>
                      pop capacity v s = Some (v', s')))"
  using assms by (simp add: pop_def pop_try_def Let_def)

theorem pop_equals_pop_try_witness:
  "population \<lparr>DataAvailableEvent = True, mutex = False, items = [7, 8, 0, 0, 0::int],
               InsertionIndex = 2, ExtractionIndex = 0, population = 2\<rparr> \<noteq> 0 \<and>
   pop_try 5 1000 \<lparr>DataAvailableEvent = True, mutex = False, items = [7, 8, 0, 0, 0::int],
                    InsertionIndex = 2, ExtractionIndex = 0, population = 2\<rparr>
     = Some (FIFO_STATUS_SUCCESS, 7,
             \<lparr>DataAvailableEvent = True, mutex = False, items = [7, 8, 0, 0, 0::int],
              InsertionIndex = 2, ExtractionIndex = 1, population = 1\<rparr>) \<and>
   pop 5 1000 \<lparr>DataAvailableEvent = True, mutex = False, items = [7, 8, 0, 0, 0::int],
                InsertionIndex = 2, ExtractionIndex = 0, population = 2\<rparr>
     = Some (7,
             \<lparr>DataAvailableEvent = True, mutex = False, items = [7, 8, 0, 0, 0::int],
              InsertionIndex = 2, ExtractionIndex = 1, population = 1\<rparr>)"
proof -
  let ?s = "\<lparr>DataAvailableEvent = True, mutex = False, items = [7, 8, 0, 0, 0::int],
               InsertionIndex = 2, ExtractionIndex = 0, population = 2\<rparr>"
  have h: "population ?s \<noteq> 0" by simp
  have p: "pop_try 5 1000 ?s = Some (FIFO_STATUS_SUCCESS, 7,
             \<lparr>DataAvailableEvent = True, mutex = False, items = [7, 8, 0, 0, 0::int],
              InsertionIndex = 2, ExtractionIndex = 1, population = 1\<rparr>)"
    by code_simp
  from pop_equals_pop_try[OF h, of 5 1000] p h show ?thesis by simp
qed



text \<open>
  C8. \<open>pop\<close> does not test the population again after the wait of line 373. A failing
  run with one writer thread (0) and the reader thread (1) on a fresh queue of capacity
  5: the writer calls \<open>push(7)\<close> and is pre-empted after \<open>LeaveCriticalSection\<close> (line
  312), before \<open>SetEvent\<close> (line 315); the reader calls \<open>pop_try\<close>, which returns 7,
  brings the population to 0 and resets the event; the writer resumes and sets the
  event. Now the population is 0 and the event is signalled. The reader calls \<open>pop\<close>:
  the wait of line 373 returns at once, line 383 reads the stale slot \<open>items[1]\<close>, and
  \<open>population--\<close> on 0 wraps around to \<open>2^32 - 1\<close>.
\<close>

theorem pop_dequeues_from_empty_queue:
  "schedule 5
     [Call 0 (Push 7), Step 0, Step 0, Step 0, Step 0, Step 0, Step 0, Step 0,
      Call 1 Pop_try, Step 1, Step 1, Step 1, Step 1, Step 1, Step 1, Step 1, Step 1,
      Step 0]
     (Fifo_ctor [0, 0, 0, 0, 0::int], [idle_thread 0, idle_thread (- 1)])
   = Some (\<lparr>DataAvailableEvent = True, mutex = False, items = [7, 0, 0, 0, 0],
            InsertionIndex = 1, ExtractionIndex = 1, population = 0\<rparr>,
           [\<lparr>pc = Idle, push_item = 7, pop_item = 0,
             results = [Push_returned 7 FIFO_STATUS_SUCCESS]\<rparr>,
            \<lparr>pc = Idle, push_item = - 1, pop_item = 7,
             results = [Pop_try_returned FIFO_STATUS_SUCCESS 7]\<rparr>]) \<and>
   schedule 5
     [Call 1 Pop, Step 1, Step 1, Step 1, Step 1, Step 1, Step 1, Step 1, Step 1]
     (\<lparr>DataAvailableEvent = True, mutex = False, items = [7, 0, 0, 0, 0::int],
       InsertionIndex = 1, ExtractionIndex = 1, population = 0\<rparr>,
      [\<lparr>pc = Idle, push_item = 7, pop_item = 0,
        results = [Push_returned 7 FIFO_STATUS_SUCCESS]\<rparr>,
       \<lparr>pc = Idle, push_item = - 1, pop_item = 7,
        results = [Pop_try_returned FIFO_STATUS_SUCCESS 7]\<rparr>])
   = Some (\<lparr>DataAvailableEvent = True, mutex = False, items = [7, 0, 0, 0, 0],
            InsertionIndex = 1, ExtractionIndex = 2, population = 4294967295\<rparr>,
           [\<lparr>pc = Idle, push_item = 7, pop_item = 0,
             results = [Push_returned 7 FIFO_STATUS_SUCCESS]\<rparr>,
            \<lparr>pc = Idle, push_item = - 1, pop_item = 0,
             results = [Pop_try_returned FIFO_STATUS_SUCCESS 7, Pop_returned 0]\<rparr>]) \<and>
   pop 5 7 \<lparr>DataAvailableEvent = True, mutex = False, items = [7, 0, 0, 0, 0::int],
             InsertionIndex = 1, ExtractionIndex = 1, population = 0\<rparr>
   = Some (0, \<lparr>DataAvailableEvent = True, mutex = False, items = [7, 0, 0, 0, 0],
               InsertionIndex = 1, ExtractionIndex = 2, population = 4294967295\<rparr>)"
  by code_simp




lemma two_writers_outcomes:
  "schedule 5 (map Step [0, 0, 0, 0, 0, 0, 0, 0, 1])
     (\<lparr>DataAvailableEvent = True, mutex = False, items = [9, 10, 11, 12, 0::int],
       InsertionIndex = 4, ExtractionIndex = 0, population = 4\<rparr>,
      [\<lparr>pc = L282, push_item = 13, pop_item = 0, results = []\<rparr>,
       \<lparr>pc = L282, push_item = 14, pop_item = 0, results = []\<rparr>])
   = Some (\<lparr>DataAvailableEvent = True, mutex = False, items = [9, 10, 11, 12, 13],
            InsertionIndex = 0, ExtractionIndex = 0, population = 5\<rparr>,
           [\<lparr>pc = Idle, push_item = 13, pop_item = 0,
             results = [Push_returned 13 FIFO_STATUS_SUCCESS]\<rparr>,
            \<lparr>pc = Idle, push_item = 14, pop_item = 0,
             results = [Push_returned 14 FIFO_STATUS_FULL]\<rparr>])"
  "schedule 5 (map Step [0, 1, 1, 1, 1, 1, 1, 1, 1, 0, 0, 0])
     (\<lparr>DataAvailableEvent = True, mutex = False, items = [9, 10, 11, 12, 0::int],
       InsertionIndex = 4, ExtractionIndex = 0, population = 4\<rparr>,
      [\<lparr>pc = L282, push_item = 13, pop_item = 0, results = []\<rparr>,
       \<lparr>pc = L282, push_item = 14, pop_item = 0, results = []\<rparr>])
   = Some (\<lparr>DataAvailableEvent = True, mutex = False, items = [9, 10, 11, 12, 14],
            InsertionIndex = 0, ExtractionIndex = 0, population = 5\<rparr>,
           [\<lparr>pc = Idle, push_item = 13, pop_item = 0,
             results = [Push_returned 13 FIFO_STATUS_PREEMPTED]\<rparr>,
            \<lparr>pc = Idle, push_item = 14, pop_item = 0,
             results = [Push_returned 14 FIFO_STATUS_SUCCESS]\<rparr>])"
  by code_simp+


text \<open>
  C10. In every state with population 0 and for every value of \<open>*itemPtr\<close> at the call,
  \<open>pop_try\<close> returns \<open>FIFO_STATUS_EMPTY\<close>, \<open>*itemPtr\<close> keeps its value, and the slots, the
  indices, the population, the event and the critical section are unchanged.
\<close>

theorem pop_try_empty_frame:
  assumes "population s = 0"
  shows "\<exists>v' s'. pop_try capacity v s = Some (FIFO_STATUS_EMPTY, v', s') \<and> v' = v \<and>
           items s' = items s \<and> InsertionIndex s' = InsertionIndex s \<and>
           ExtractionIndex s' = ExtractionIndex s \<and> population s' = population s \<and>
           DataAvailableEvent s' = DataAvailableEvent s \<and> mutex s' = mutex s \<and> s' = s"
  using assms by (simp add: pop_try_def)

theorem pop_try_empty_frame_witness:
  "population \<lparr>DataAvailableEvent = False, mutex = True, items = [12, 8, 9, 10, 11::int],
               InsertionIndex = 1, ExtractionIndex = 1, population = 0\<rparr> = 0 \<and>
   pop_try 5 4000 \<lparr>DataAvailableEvent = False, mutex = True, items = [12, 8, 9, 10, 11::int],
                    InsertionIndex = 1, ExtractionIndex = 1, population = 0\<rparr>
     = Some (FIFO_STATUS_EMPTY, 4000,
             \<lparr>DataAvailableEvent = False, mutex = True, items = [12, 8, 9, 10, 11::int],
              InsertionIndex = 1, ExtractionIndex = 1, population = 0\<rparr>)"
proof -
  let ?s = "\<lparr>DataAvailableEvent = False, mutex = True, items = [12, 8, 9, 10, 11::int],
               InsertionIndex = 1, ExtractionIndex = 1, population = 0\<rparr>"
  have h: "population ?s = 0" by simp
  from pop_try_empty_frame[OF h, of 5 4000] h show ?thesis by auto
qed


end
